theory Spec2Isabelle
  imports Main "HOL-Library.List_Lexorder" "HOL-Library.Multiset" "HOL-Library.AList"
begin

section \<open>Records, errors and key tuples\<close>

text \<open>
  \<^verbatim>\<open>TRow = tp.Dict[str, tp.Any]\<close>: a row is a Python dict. Python dicts keep insertion
  order, so a row is an association list with distinct field names, in insertion order.
  Field values are left polymorphic; where the code orders key tuples (\<^verbatim>\<open>Join\<close>), they are
  drawn from one linearly ordered type, which rules out the \<^verbatim>\<open>TypeError\<close> of comparing values
  of different Python types.
\<close>

type_synonym 'v TRow = "(string \<times> 'v) list"

text \<open>
  The exceptions the modelled code can raise. The payload of a Python exception (the name of
  the missing field, say) is not modelled.
\<close>

datatype error = KeyError | AttributeError | AssertionError

text \<open>\<^verbatim>\<open>row[key]\<close>: raises \<^verbatim>\<open>KeyError\<close> when the field is absent.\<close>

definition getitem :: "'v TRow \<Rightarrow> string \<Rightarrow> error + 'v" where
  "getitem row key = (case map_of row key of None \<Rightarrow> Inl KeyError | Some v \<Rightarrow> Inr v)"

text \<open>
  \<^verbatim>\<open>[row[key] for key in self.keys]\<close> of \<^verbatim>\<open>Reduce.get_value\<close> and
  \<^verbatim>\<open>tuple(row[key] for key in self.keys)\<close> of \<^verbatim>\<open>Join.grouper\<close>: the key projection of a row,
  evaluated left to right, failing at the first absent field.
\<close>

fun get_value :: "string list \<Rightarrow> 'v TRow \<Rightarrow> error + 'v list" where
  "get_value [] row = Inr []"
| "get_value (key # keys) row =
     (case getitem row key of
        Inl e \<Rightarrow> Inl e
      | Inr v \<Rightarrow> (case get_value keys row of Inl e \<Rightarrow> Inl e | Inr vs \<Rightarrow> Inr (v # vs)))"

definition grouper :: "string list \<Rightarrow> 'v TRow \<Rightarrow> error + 'v list" where
  "grouper keys row = get_value keys row"

section \<open>\<^verbatim>\<open>itertools.groupby\<close>\<close>

text \<open>
  One advance of \<^verbatim>\<open>itertools.groupby(rows, key)\<close> over the rows not yet grouped: the key of
  the first row, the maximal run of rows with an equal key, and the rows after the run;
  \<open>None\<close> is \<^verbatim>\<open>StopIteration\<close>. A row whose key function raises ends the run before it and
  becomes the head of the remaining rows, so the exception is raised by the next advance.
  In Python it is raised as soon as the iteration reaches that row, which may be inside
  the consumer of the group; both ways the enclosing generator ends with an exception and
  nothing of its output is returned by \<^verbatim>\<open>list(...)\<close>. Which exception comes first when
  the consumer of the shortened group raises one of its own is not modelled.
\<close>

definition groupby_next ::
  "('a \<Rightarrow> error + 'k) \<Rightarrow> 'a list \<Rightarrow> error + ('k \<times> 'a list \<times> 'a list) option" where
  "groupby_next keyf rows =
     (case rows of
        [] \<Rightarrow> Inr None
      | r # rs \<Rightarrow>
          (case keyf r of
             Inl e \<Rightarrow> Inl e
           | Inr k \<Rightarrow>
               Inr (Some (k, r # takeWhile (\<lambda>x. keyf x = Inr k) rs,
                          dropWhile (\<lambda>x. keyf x = Inr k) rs))))"

lemma groupby_next_shorter:
  "groupby_next keyf rows = Inr (Some (k, g, rest)) \<Longrightarrow> length rest < length rows"
  by (auto simp: groupby_next_def less_Suc_eq_le length_dropWhile_le
           split: list.splits sum.splits)

section \<open>The Reduce operation\<close>

text \<open>
  \<^verbatim>\<open>Reduce.__call__\<close>:
  \<^verbatim>\<open>for _, g in itertools.groupby(rows, get_value): yield from self.reducer(self.keys, g)\<close>.
  The reducer is any callable from the key names and a group to the rows it yields, or the
  exception it raises; the yielded rows are collected in order.
\<close>

function Reduce ::
  "(string list \<Rightarrow> 'v TRow list \<Rightarrow> error + 'o list) \<Rightarrow> string list \<Rightarrow> 'v TRow list
     \<Rightarrow> error + 'o list" where
  "Reduce reducer keys rows =
     (case groupby_next (get_value keys) rows of
        Inl e \<Rightarrow> Inl e
      | Inr None \<Rightarrow> Inr []
      | Inr (Some (k, g, rest)) \<Rightarrow>
          (case reducer keys g of
             Inl e \<Rightarrow> Inl e
           | Inr out \<Rightarrow>
               (case Reduce reducer keys rest of
                  Inl e \<Rightarrow> Inl e
                | Inr outs \<Rightarrow> Inr (out @ outs))))"
  by pat_completeness auto
termination
  by (relation "measure (\<lambda>(reducer, keys, rows). length rows)")
     (auto dest: groupby_next_shorter)

declare Reduce.simps [simp del]

text \<open>The reducer that records its invocations: it yields the pair of its arguments.\<close>

definition recording_reducer :: "string list \<Rightarrow> 'a list \<Rightarrow> error + (string list \<times> 'a list) list" where
  "recording_reducer keys g = Inr [(keys, g)]"

section \<open>Reduce with an empty key tuple\<close>

lemma Reduce_Nil: "Reduce reducer keys [] = Inr []"
  by (subst Reduce.simps) (simp add: groupby_next_def)

lemma groupby_next_no_keys:
  "groupby_next (get_value []) (r # rs) = Inr (Some ([], r # rs, []))"
  by (simp add: groupby_next_def)

text \<open>
  C8. For a non-empty input, reducing with the empty key tuple invokes the reducer exactly
  once, on all input rows in their input order: the recorded invocations are the single
  pair of the empty key tuple and the whole input, and with any reducer the result of the
  stage is the result of that one call.
\<close>

theorem Reduce_empty_keys_single_group:
  assumes "rows \<noteq> []"
  shows "Reduce recording_reducer [] rows = Inr [([], rows)]
       \<and> Reduce reducer [] rows = reducer [] rows"
proof -
  from assms obtain r rs where rows: "rows = r # rs" by (cases rows) auto
  have one: "Reduce f [] rows = (case f [] rows of Inl e \<Rightarrow> Inl e | Inr out \<Rightarrow> Inr out)"
    for f :: "string list \<Rightarrow> 'a TRow list \<Rightarrow> error + 'c list"
    unfolding rows
    by (subst Reduce.simps) (simp add: groupby_next_no_keys Reduce_Nil split: sum.splits)
  show ?thesis
    by (simp add: one recording_reducer_def split: sum.splits)
qed

theorem Reduce_empty_keys_single_group_witness:
  "Reduce recording_reducer [] [[(''a'', 1::int)], [(''a'', 0)], [(''b'', 5)]]
     = Inr [([], [[(''a'', 1)], [(''a'', 0)], [(''b'', 5)]])]
   \<and> Reduce (\<lambda>keys g. Inr [length g]) [] [[(''a'', 1::int)], [(''a'', 0)], [(''b'', 5)]]
     = Inr [3]"
  using Reduce_empty_keys_single_group
          [of "[[(''a'', 1::int)], [(''a'', 0)], [(''b'', 5)]]" "\<lambda>keys g. Inr [length g]"]
  by simp

section \<open>Key-sorted streams and key groups\<close>

text \<open>
  The vocabulary of the specification. A row has the keys when it carries every field of the
  key tuple; its key projection is then the list of the values at these fields. A stream is
  key-sorted when every row has the keys and the projections are non-decreasing in the
  lexicographic order. The key groups of a stream are, for each distinct projection in
  input order, the rows with that projection in input order.
\<close>

definition has_keys :: "string list \<Rightarrow> 'v TRow \<Rightarrow> bool" where
  "has_keys keys row = list_all (\<lambda>key. map_of row key \<noteq> None) keys"

definition key_of :: "string list \<Rightarrow> 'v TRow \<Rightarrow> 'v list" where
  "key_of keys row = map (\<lambda>key. the (map_of row key)) keys"

definition key_sorted :: "string list \<Rightarrow> ('v::linorder) TRow list \<Rightarrow> bool" where
  "key_sorted keys rows = (list_all (has_keys keys) rows \<and> sorted (map (key_of keys) rows))"

definition key_groups :: "string list \<Rightarrow> 'v TRow list \<Rightarrow> 'v TRow list list" where
  "key_groups keys rows =
     map (\<lambda>k. filter (\<lambda>r. key_of keys r = k) rows) (remdups (map (key_of keys) rows))"

text \<open>
  The outputs of a sequence of invocations, concatenated in order; an exception raised by
  one of them ends the stage.
\<close>

fun yield_from_all :: "(error + 'o list) list \<Rightarrow> error + 'o list" where
  "yield_from_all [] = Inr []"
| "yield_from_all (x # xs) =
     (case x of
        Inl e \<Rightarrow> Inl e
      | Inr out \<Rightarrow> (case yield_from_all xs of Inl e \<Rightarrow> Inl e | Inr outs \<Rightarrow> Inr (out @ outs)))"

lemma get_value_has_keys: "has_keys keys row \<Longrightarrow> get_value keys row = Inr (key_of keys row)"
  by (induction keys) (auto simp: has_keys_def key_of_def getitem_def)

lemma sorted_takeWhile_eq_filter:
  "sorted (k # map f xs) \<Longrightarrow> takeWhile (\<lambda>x. f x = k) xs = filter (\<lambda>x. f x = k) xs"
proof (induction xs)
  case Nil
  then show ?case by simp
next
  case (Cons a xs)
  show ?case
  proof (cases "f a = k")
    case True
    with Cons show ?thesis by simp
  next
    case False
    with Cons.prems have "\<forall>x\<in>set xs. f x \<noteq> k" by fastforce
    then have "filter (\<lambda>x. f x = k) xs = []" by (simp add: filter_empty_conv)
    with False show ?thesis by simp
  qed
qed

lemma sorted_dropWhile_eq_filter:
  "sorted (k # map f xs) \<Longrightarrow> dropWhile (\<lambda>x. f x = k) xs = filter (\<lambda>x. f x \<noteq> k) xs"
proof (induction xs)
  case Nil
  then show ?case by simp
next
  case (Cons a xs)
  show ?case
  proof (cases "f a = k")
    case True
    with Cons show ?thesis by simp
  next
    case False
    with Cons.prems have "\<forall>x\<in>set xs. f x \<noteq> k" by fastforce
    then have "filter (\<lambda>x. f x \<noteq> k) xs = xs" by (simp add: filter_id_conv)
    with False show ?thesis by simp
  qed
qed

lemma remdups_sorted_Cons:
  "sorted (k # ks) \<Longrightarrow> remdups (k # ks) = k # remdups (filter (\<lambda>x. x \<noteq> k) ks)"
proof (induction ks)
  case Nil
  then show ?case by simp
next
  case (Cons a as)
  show ?case
  proof (cases "a = k")
    case True
    with Cons show ?thesis by simp
  next
    case False
    with Cons.prems have "\<forall>x\<in>set as. x \<noteq> k" by fastforce
    then have "filter (\<lambda>x. x \<noteq> k) as = as" and "k \<notin> set as" by (auto simp: filter_id_conv)
    with False show ?thesis by simp
  qed
qed

lemma key_groups_Nil: "key_groups keys [] = []"
  by (simp add: key_groups_def)

lemma key_groups_Cons:
  assumes "sorted (map (key_of keys) (r # rs))"
  shows "key_groups keys (r # rs) =
           (r # filter (\<lambda>x. key_of keys x = key_of keys r) rs)
           # key_groups keys (filter (\<lambda>x. key_of keys x \<noteq> key_of keys r) rs)"
proof -
  let ?f = "key_of keys" and ?k = "key_of keys r"
  let ?rest = "filter (\<lambda>x. ?f x \<noteq> ?k) rs"
  from assms have s: "sorted (?k # map ?f rs)" by simp
  have rd: "remdups (map ?f (r # rs)) = ?k # remdups (map ?f ?rest)"
    using remdups_sorted_Cons [OF s] by (simp add: filter_map comp_def)
  have "filter (\<lambda>x. ?f x = k') (r # rs) = filter (\<lambda>x. ?f x = k') ?rest"
    if "k' \<in> set (map ?f ?rest)" for k'
  proof -
    from that have "k' \<noteq> ?k" by auto
    then show ?thesis by (auto intro: filter_cong)
  qed
  then have "map (\<lambda>k'. filter (\<lambda>x. ?f x = k') (r # rs)) (remdups (map ?f ?rest))
           = map (\<lambda>k'. filter (\<lambda>x. ?f x = k') ?rest) (remdups (map ?f ?rest))"
    by (intro map_cong) auto
  then show ?thesis
    unfolding key_groups_def rd by simp
qed

lemma key_sorted_filter: "key_sorted keys rows \<Longrightarrow> key_sorted keys (filter P rows)"
  by (auto simp: key_sorted_def list_all_iff filter_map [symmetric] comp_def
           intro: sorted_filter sorted_wrt_filter)

lemma groupby_next_key_sorted:
  assumes "key_sorted keys (r # rs)"
  shows "groupby_next (get_value keys) (r # rs) =
           Inr (Some (key_of keys r,
                      r # filter (\<lambda>x. key_of keys x = key_of keys r) rs,
                      filter (\<lambda>x. key_of keys x \<noteq> key_of keys r) rs))"
proof -
  from assms have hk: "has_keys keys r" "\<forall>x\<in>set rs. has_keys keys x"
    and s: "sorted (key_of keys r # map (key_of keys) rs)"
    by (auto simp: key_sorted_def list_all_iff)
  have eq: "(get_value keys x = Inr (key_of keys r)) = (key_of keys x = key_of keys r)"
    if "x \<in> set rs" for x
    using hk that by (simp add: get_value_has_keys)
  have tw: "takeWhile (\<lambda>x. get_value keys x = Inr (key_of keys r)) rs
          = takeWhile (\<lambda>x. key_of keys x = key_of keys r) rs"
    by (rule takeWhile_cong) (auto simp: eq)
  have dw: "dropWhile (\<lambda>x. get_value keys x = Inr (key_of keys r)) rs
          = dropWhile (\<lambda>x. key_of keys x = key_of keys r) rs"
    by (rule dropWhile_cong) (auto simp: eq)
  show ?thesis
    using hk(1) sorted_takeWhile_eq_filter [OF s] sorted_dropWhile_eq_filter [OF s]
    by (simp add: groupby_next_def get_value_has_keys tw dw)
qed

lemma Reduce_key_sorted:
  "key_sorted keys rows \<Longrightarrow>
   Reduce reducer keys rows = yield_from_all (map (reducer keys) (key_groups keys rows))"
proof (induction "length rows" arbitrary: rows rule: less_induct)
  case less
  show ?case
  proof (cases rows)
    case Nil
    then show ?thesis by (simp add: Reduce_Nil key_groups_Nil)
  next
    case (Cons r rs)
    let ?rest = "filter (\<lambda>x. key_of keys x \<noteq> key_of keys r) rs"
    have len: "length ?rest < length rows" using Cons by (simp add: less_Suc_eq_le)
    have ks: "key_sorted keys ?rest"
      using less.prems Cons key_sorted_filter [of keys rs]
      by (simp add: key_sorted_def)
    have srt: "sorted (map (key_of keys) (r # rs))"
      using less.prems Cons by (simp add: key_sorted_def)
    have IH: "Reduce reducer keys ?rest
            = yield_from_all (map (reducer keys) (key_groups keys ?rest))"
      by (rule less.hyps [OF len ks])
    show ?thesis
      unfolding Cons
      by (subst Reduce.simps)
         (simp add: groupby_next_key_sorted [OF less.prems [unfolded Cons]]
                    key_groups_Cons [OF srt] IH split: sum.splits)
  qed
qed

lemma yield_from_all_recording:
  "yield_from_all (map (recording_reducer keys) gs) = Inr (map (Pair keys) gs)"
  by (induction gs) (simp_all add: recording_reducer_def)

text \<open>
  C6. On a key-sorted input, the reducer is invoked exactly once per distinct key
  projection: the recorded invocations are the key groups in input order, each holding
  exactly the rows with that projection in their input order, their number is the number
  of distinct projections, and for any reducer the output of the stage is the
  concatenation, in group order, of the outputs of the reducer on these groups.
\<close>

theorem Reduce_groups_key_sorted:
  assumes "key_sorted keys rows"
  shows "Reduce recording_reducer keys rows = Inr (map (Pair keys) (key_groups keys rows))
       \<and> length (key_groups keys rows) = card (key_of keys ` set rows)
       \<and> Reduce reducer keys rows = yield_from_all (map (reducer keys) (key_groups keys rows))"
proof -
  have "length (key_groups keys rows) = card (key_of keys ` set rows)"
    by (simp add: key_groups_def length_remdups_card_conv)
  with assms show ?thesis
    by (simp add: Reduce_key_sorted yield_from_all_recording)
qed

theorem Reduce_groups_key_sorted_witness:
  "key_sorted [''text'']
     [[(''doc'', 2::int), (''text'', 1)], [(''doc'', 1), (''text'', 2)],
      [(''doc'', 2), (''text'', 2)], [(''doc'', 1), (''text'', 5)]]
   \<and> Reduce recording_reducer [''text'']
     [[(''doc'', 2::int), (''text'', 1)], [(''doc'', 1), (''text'', 2)],
      [(''doc'', 2), (''text'', 2)], [(''doc'', 1), (''text'', 5)]]
     = Inr [([''text''], [[(''doc'', 2), (''text'', 1)]]),
            ([''text''], [[(''doc'', 1), (''text'', 2)], [(''doc'', 2), (''text'', 2)]]),
            ([''text''], [[(''doc'', 1), (''text'', 5)]])]"
proof -
  let ?rows = "[[(''doc'', 2::int), (''text'', 1)], [(''doc'', 1), (''text'', 2)],
                [(''doc'', 2), (''text'', 2)], [(''doc'', 1), (''text'', 5)]]"
  have ks: "key_sorted [''text''] ?rows"
    by (simp add: key_sorted_def has_keys_def key_of_def)
  have "Reduce recording_reducer [''text''] ?rows
          = Inr (map (Pair [''text'']) (key_groups [''text''] ?rows))"
    using Reduce_groups_key_sorted [OF ks, of recording_reducer] by simp
  moreover have "key_groups [''text''] ?rows
          = [[[(''doc'', 2), (''text'', 1)]],
             [[(''doc'', 1), (''text'', 2)], [(''doc'', 2), (''text'', 2)]],
             [[(''doc'', 1), (''text'', 5)]]]"
    by (simp add: key_groups_def key_of_def)
  ultimately show ?thesis using ks by simp
qed

section \<open>The Join operation\<close>

text \<open>
  The two arguments \<^verbatim>\<open>Join.__call__\<close> passes to its joiner are \<^verbatim>\<open>group_a or []\<close> and
  \<^verbatim>\<open>group_b or []\<close> (or the literal \<^verbatim>\<open>[]\<close>): a group object of \<^verbatim>\<open>itertools.groupby\<close>, which
  has neither \<^verbatim>\<open>__bool__\<close> nor \<^verbatim>\<open>__len__\<close> and is therefore always true, or a Python list,
  which is true when it is not empty. The joiners test their arguments for truth, so the
  model keeps the two kinds apart.
\<close>

datatype 'a rows_arg = Grouper "'a list" | PyList "'a list"

fun rows_of :: "'a rows_arg \<Rightarrow> 'a list" where
  "rows_of (Grouper g) = g"
| "rows_of (PyList xs) = xs"

fun truthy :: "'a rows_arg \<Rightarrow> bool" where
  "truthy (Grouper g) = True"
| "truthy (PyList xs) = (xs \<noteq> [])"

text \<open>
  \<^verbatim>\<open>take_next_from_iterable\<close>: \<^verbatim>\<open>next(iterable_obj)\<close>, and \<^verbatim>\<open>(None, None)\<close> on
  \<^verbatim>\<open>StopIteration\<close>. The pair \<^verbatim>\<open>(key, group)\<close> is \<open>Some (key, group)\<close>, the pair
  \<^verbatim>\<open>(None, None)\<close> is \<open>None\<close>; the second component of the result is what is left of the
  grouped stream.
\<close>

definition take_next_from_iterable ::
  "('a \<Rightarrow> error + 'k) \<Rightarrow> 'a list \<Rightarrow> error + (('k \<times> 'a list) option \<times> 'a list)" where
  "take_next_from_iterable keyf rows =
     (case groupby_next keyf rows of
        Inl e \<Rightarrow> Inl e
      | Inr None \<Rightarrow> Inr (None, rows)
      | Inr (Some (k, g, rest)) \<Rightarrow> Inr (Some (k, g), rest))"

text \<open>\<^verbatim>\<open>group or []\<close>.\<close>

definition or_empty :: "('k \<times> 'a list) option \<Rightarrow> 'a rows_arg" where
  "or_empty cur = (case cur of None \<Rightarrow> PyList [] | Some (k, g) \<Rightarrow> Grouper g)"

text \<open>
  The variables of the \<^verbatim>\<open>while True\<close> loop of \<^verbatim>\<open>Join.__call__\<close>: the two grouped streams
  (the rows they have not grouped yet), the two flags, and the current key and group of
  each side.
\<close>

record ('k, 'a) join_state =
  groups_a :: "'a list"
  groups_b :: "'a list"
  need_take_a :: bool
  need_take_b :: bool
  cur_a :: "('k \<times> 'a list) option"
  cur_b :: "('k \<times> 'a list) option"

text \<open>
  One iteration of the loop: it leaves the loop (\<^verbatim>\<open>break\<close>), or it yields what one call of
  the joiner yields and goes on with the updated variables, or an exception ends it. The
  joiner is any callable from the key names and two groups to the rows it yields or the
  exception it raises. \<^verbatim>\<open>key_a == key_b\<close> compares the two keys, each a tuple or
  \<^verbatim>\<open>None\<close>; \<^verbatim>\<open>key_b >= key_a\<close> is the lexicographic order of tuples.
\<close>

datatype ('s, 'o) iteration = Break | Continue 's "'o list"

definition join_body ::
  "(string list \<Rightarrow> 'v TRow rows_arg \<Rightarrow> 'v TRow rows_arg \<Rightarrow> error + 'o list) \<Rightarrow> string list
     \<Rightarrow> ('v::linorder list, 'v TRow) join_state
     \<Rightarrow> error + (('v list, 'v TRow) join_state, 'o) iteration" where
  "join_body joiner keys st =
     (case (if need_take_a st then take_next_from_iterable (grouper keys) (groups_a st)
            else Inr (cur_a st, groups_a st)) of
        Inl e \<Rightarrow> Inl e
      | Inr (ca, ga) \<Rightarrow>
     (case (if need_take_b st then take_next_from_iterable (grouper keys) (groups_b st)
            else Inr (cur_b st, groups_b st)) of
        Inl e \<Rightarrow> Inl e
      | Inr (cb, gb) \<Rightarrow>
          if cb = None \<and> ca = None then Inr Break
          else if map_option fst ca = map_option fst cb then
            (case joiner keys (or_empty ca) (or_empty cb) of
               Inl e \<Rightarrow> Inl e
             | Inr out \<Rightarrow>
                 Inr (Continue \<lparr>groups_a = ga, groups_b = gb, need_take_a = True,
                                need_take_b = True, cur_a = ca, cur_b = cb\<rparr> out))
          else if ca \<noteq> None \<and> (cb = None \<or> fst (the cb) \<ge> fst (the ca)) then
            (case joiner keys (or_empty ca) (PyList []) of
               Inl e \<Rightarrow> Inl e
             | Inr out \<Rightarrow>
                 Inr (Continue \<lparr>groups_a = ga, groups_b = gb, need_take_a = True,
                                need_take_b = False, cur_a = ca, cur_b = cb\<rparr> out))
          else
            (case joiner keys (PyList []) (or_empty cb) of
               Inl e \<Rightarrow> Inl e
             | Inr out \<Rightarrow>
                 Inr (Continue \<lparr>groups_a = ga, groups_b = gb, need_take_a = False,
                                need_take_b = True, cur_a = ca, cur_b = cb\<rparr> out))))"

text \<open>
  The loop itself. Nothing is assumed about its termination: the result is \<open>None\<close> when
  the loop runs forever, \<open>Some (Inl e)\<close> when an exception ends it, and \<open>Some (Inr rows)\<close>
  when it ends normally, having yielded \<open>rows\<close>.
\<close>

partial_function (option) join_loop ::
  "(string list \<Rightarrow> 'v TRow rows_arg \<Rightarrow> 'v TRow rows_arg \<Rightarrow> error + 'o list) \<Rightarrow> string list
     \<Rightarrow> ('v::linorder list, 'v TRow) join_state \<Rightarrow> 'o list \<Rightarrow> (error + 'o list) option" where
  "join_loop joiner keys st acc =
     (case join_body joiner keys st of
        Inl e \<Rightarrow> Some (Inl e)
      | Inr Break \<Rightarrow> Some (Inr acc)
      | Inr (Continue st' out) \<Rightarrow> join_loop joiner keys st' (acc @ out))"

declare join_loop.simps [code]

definition Join ::
  "(string list \<Rightarrow> 'v TRow rows_arg \<Rightarrow> 'v TRow rows_arg \<Rightarrow> error + 'o list) \<Rightarrow> string list
     \<Rightarrow> ('v::linorder) TRow list \<Rightarrow> 'v TRow list \<Rightarrow> (error + 'o list) option" where
  "Join joiner keys rows_a rows_b =
     join_loop joiner keys
       \<lparr>groups_a = rows_a, groups_b = rows_b, need_take_a = True, need_take_b = True,
        cur_a = None, cur_b = None\<rparr> []"

text \<open>The joiner that records its invocations: it yields the pair of its two groups.\<close>

definition recording_joiner ::
  "string list \<Rightarrow> 'a rows_arg \<Rightarrow> 'a rows_arg \<Rightarrow> error + ('a rows_arg \<times> 'a rows_arg) list" where
  "recording_joiner keys rows_a rows_b = Inr [(rows_a, rows_b)]"


text \<open>Two small key-sorted streams and a state of the loop, used to instantiate the theorems.\<close>

definition example_left :: "int TRow list" where
  "example_left = [[(''k'', 1), (''x'', 10)], [(''k'', 1), (''x'', 11)], [(''k'', 3), (''x'', 12)]]"

definition example_right :: "int TRow list" where
  "example_right = [[(''k'', 0), (''y'', 1)], [(''k'', 1), (''y'', 2)], [(''k'', 4), (''y'', 3)]]"

definition example_state :: "(int list, int TRow) join_state" where
  "example_state = \<lparr>groups_a = [[(''k'', 1)], [(''k'', 3)]], groups_b = [[(''k'', 2)]],
       need_take_a = True, need_take_b = True, cur_a = None, cur_b = None\<rparr>"

definition example_state' :: "(int list, int TRow) join_state" where
  "example_state' = \<lparr>groups_a = [[(''k'', 3)]], groups_b = [],
       need_take_a = True, need_take_b = False, cur_a = Some ([1], [[(''k'', 1)]]),
       cur_b = Some ([2], [[(''k'', 2)]])\<rparr>"

subsection \<open>Termination of the loop\<close>

text \<open>
  What is left to deliver on one side: the rows not yet grouped, and one more when a group
  is held back for the next iteration.
\<close>

definition side_measure :: "bool \<Rightarrow> ('k \<times> 'a list) option \<Rightarrow> 'a list \<Rightarrow> nat" where
  "side_measure need cur rest =
     length rest + (if need then 0 else (case cur of None \<Rightarrow> 0 | Some _ \<Rightarrow> 1))"

definition join_measure :: "('k, 'a) join_state \<Rightarrow> nat" where
  "join_measure st =
     side_measure (need_take_a st) (cur_a st) (groups_a st)
   + side_measure (need_take_b st) (cur_b st) (groups_b st)"

lemma take_next_measure:
  "take_next_from_iterable keyf rows = Inr (c, rest) \<Longrightarrow>
   length rest + (case c of None \<Rightarrow> 0 | Some _ \<Rightarrow> 1) \<le> length rows"
  by (auto simp: take_next_from_iterable_def groupby_next_def length_dropWhile_le
           split: list.splits sum.splits)

text \<open>The conditional advance of one side at the head of an iteration.\<close>

definition advance ::
  "bool \<Rightarrow> ('a \<Rightarrow> error + 'k) \<Rightarrow> ('k \<times> 'a list) option \<Rightarrow> 'a list
     \<Rightarrow> error + (('k \<times> 'a list) option \<times> 'a list)" where
  "advance need keyf cur rows =
     (if need then take_next_from_iterable keyf rows else Inr (cur, rows))"

lemma advance_measure:
  "advance need keyf cur rows = Inr (c, rest) \<Longrightarrow>
   length rest + (case c of None \<Rightarrow> 0 | Some _ \<Rightarrow> 1) \<le> side_measure need cur rows"
  by (auto simp: advance_def side_measure_def dest: take_next_measure split: if_splits)

lemma join_body_Continue:
  assumes "join_body joiner keys st = Inr (Continue st' out)"
  obtains ca ga cb gb where
    "advance (need_take_a st) (grouper keys) (cur_a st) (groups_a st) = Inr (ca, ga)"
    "advance (need_take_b st) (grouper keys) (cur_b st) (groups_b st) = Inr (cb, gb)"
    "groups_a st' = ga" "groups_b st' = gb" "cur_a st' = ca" "cur_b st' = cb"
    "(need_take_a st' \<and> ca \<noteq> None) \<or> (need_take_b st' \<and> cb \<noteq> None)"
proof -
  obtain ca ga where a:
    "advance (need_take_a st) (grouper keys) (cur_a st) (groups_a st) = Inr (ca, ga)"
    using assms unfolding join_body_def advance_def [symmetric]
    by (cases "advance (need_take_a st) (grouper keys) (cur_a st) (groups_a st)") auto
  obtain cb gb where b:
    "advance (need_take_b st) (grouper keys) (cur_b st) (groups_b st) = Inr (cb, gb)"
    using assms unfolding join_body_def advance_def [symmetric] a
    by (cases "advance (need_take_b st) (grouper keys) (cur_b st) (groups_b st)") auto
  have body: "(if cb = None \<and> ca = None then Inr Break
          else if map_option fst ca = map_option fst cb then
            (case joiner keys (or_empty ca) (or_empty cb) of
               Inl e \<Rightarrow> Inl e
             | Inr out \<Rightarrow>
                 Inr (Continue \<lparr>groups_a = ga, groups_b = gb, need_take_a = True,
                                need_take_b = True, cur_a = ca, cur_b = cb\<rparr> out))
          else if ca \<noteq> None \<and> (cb = None \<or> fst (the cb) \<ge> fst (the ca)) then
            (case joiner keys (or_empty ca) (PyList []) of
               Inl e \<Rightarrow> Inl e
             | Inr out \<Rightarrow>
                 Inr (Continue \<lparr>groups_a = ga, groups_b = gb, need_take_a = True,
                                need_take_b = False, cur_a = ca, cur_b = cb\<rparr> out))
          else
            (case joiner keys (PyList []) (or_empty cb) of
               Inl e \<Rightarrow> Inl e
             | Inr out \<Rightarrow>
                 Inr (Continue \<lparr>groups_a = ga, groups_b = gb, need_take_a = False,
                                need_take_b = True, cur_a = ca, cur_b = cb\<rparr> out)))
        = Inr (Continue st' out)"
    using assms unfolding join_body_def advance_def [symmetric] a b by simp
  have nb: "\<not> (cb = None \<and> ca = None)"
    using body by (auto split: if_splits)
  consider (eq) "map_option fst ca = map_option fst cb"
    | (left) "map_option fst ca \<noteq> map_option fst cb"
             "ca \<noteq> None \<and> (cb = None \<or> fst (the cb) \<ge> fst (the ca))"
    | (right) "map_option fst ca \<noteq> map_option fst cb"
             "\<not> (ca \<noteq> None \<and> (cb = None \<or> fst (the cb) \<ge> fst (the ca)))"
    by blast
  then have "groups_a st' = ga \<and> groups_b st' = gb \<and> cur_a st' = ca \<and> cur_b st' = cb
      \<and> ((need_take_a st' \<and> ca \<noteq> None) \<or> (need_take_b st' \<and> cb \<noteq> None))"
  proof cases
    case eq
    with nb have "ca \<noteq> None" by (cases ca; cases cb) auto
    with body nb eq show ?thesis by (auto split: sum.splits)
  next
    case left
    with body nb show ?thesis by (auto split: sum.splits)
  next
    case right
    with nb have "cb \<noteq> None" by (cases ca; cases cb) auto
    with body nb right show ?thesis by (auto split: sum.splits)
  qed
  with a b that show ?thesis by blast
qed

lemma join_body_decreases:
  assumes "join_body joiner keys st = Inr (Continue st' out)"
  shows "join_measure st' < join_measure st"
proof -
  from assms obtain ca ga cb gb where
    a: "advance (need_take_a st) (grouper keys) (cur_a st) (groups_a st) = Inr (ca, ga)" and
    b: "advance (need_take_b st) (grouper keys) (cur_b st) (groups_b st) = Inr (cb, gb)" and
    st': "groups_a st' = ga" "groups_b st' = gb" "cur_a st' = ca" "cur_b st' = cb" and
    taken: "(need_take_a st' \<and> ca \<noteq> None) \<or> (need_take_b st' \<and> cb \<noteq> None)"
    by (rule join_body_Continue)
  have la: "side_measure (need_take_a st') ca ga
              \<le> length ga + (case ca of None \<Rightarrow> 0 | Some _ \<Rightarrow> 1)"
    and lb: "side_measure (need_take_b st') cb gb
              \<le> length gb + (case cb of None \<Rightarrow> 0 | Some _ \<Rightarrow> 1)"
    by (simp_all add: side_measure_def)
  from taken have "side_measure (need_take_a st') ca ga
                     < length ga + (case ca of None \<Rightarrow> 0 | Some _ \<Rightarrow> 1)
                 \<or> side_measure (need_take_b st') cb gb
                     < length gb + (case cb of None \<Rightarrow> 0 | Some _ \<Rightarrow> 1)"
    by (auto simp: side_measure_def)
  with la lb advance_measure [OF a] advance_measure [OF b] show ?thesis
    unfolding join_measure_def st' by linarith
qed

lemma join_loop_returns: "\<exists>r. join_loop joiner keys st acc = Some r"
proof (induction "join_measure st" arbitrary: st acc rule: less_induct)
  case less
  show ?case
  proof (cases "join_body joiner keys st")
    case (Inl e)
    then show ?thesis by (subst join_loop.simps) simp
  next
    case (Inr it)
    show ?thesis
    proof (cases it)
      case Break
      with Inr show ?thesis by (subst join_loop.simps) simp
    next
      case (Continue st' out)
      with Inr have "join_measure st' < join_measure st" by (simp add: join_body_decreases)
      from less [OF this] obtain r where "join_loop joiner keys st' (acc @ out) = Some r"
        by blast
      with Inr Continue show ?thesis by (subst join_loop.simps) simp
    qed
  qed
qed

text \<open>
  C10. For all finite input streams the sort-merge loop of Join terminates, with the rows
  yielded or with an exception: the loop, defined with no assumption of termination,
  returns a result (a call of the joiner is a function application, so it is taken to
  return). Every iteration that does not leave the loop strictly decreases the number of
  rows and held-back groups left to deliver on the two sides.
\<close>

theorem Join_terminates:
  "(\<exists>r. Join joiner keys rows_a rows_b = Some r)
   \<and> (\<forall>st st' out. join_body joiner keys st = Inr (Continue st' out)
         \<longrightarrow> join_measure st' < join_measure st)"
  by (simp add: Join_def join_loop_returns join_body_decreases)

theorem Join_terminates_witness:
  "(\<exists>r. Join recording_joiner [''k''] example_left example_right = Some r)
   \<and> join_body recording_joiner [''k''] example_state
       = Inr (Continue example_state' [(Grouper [[(''k'', 1)]], PyList [])])
   \<and> join_measure example_state' < join_measure example_state"
proof -
  have body: "join_body recording_joiner [''k''] example_state
                = Inr (Continue example_state' [(Grouper [[(''k'', 1)]], PyList [])])"
    by code_simp
  note t = Join_terminates [of recording_joiner "[''k'']" example_left example_right]
  have "\<exists>r. Join recording_joiner [''k''] example_left example_right = Some r"
    by (rule t [THEN conjunct1])
  moreover have "join_measure example_state' < join_measure example_state"
    by (rule t [THEN conjunct2, rule_format, OF body])
  ultimately show ?thesis using body by (intro conjI)
qed

section \<open>Joiners\<close>

text \<open>
  Writing a sequence of key/value pairs into a dict, as a dict comprehension (into the
  empty dict) and the merge \<^verbatim>\<open>d1 | d2\<close> (the items of \<^verbatim>\<open>d2\<close> into a copy of \<^verbatim>\<open>d1\<close>) do: a
  name already present keeps its position and takes the new value, a new name is added at
  the end.
\<close>

definition dict_update :: "'v TRow \<Rightarrow> (string \<times> 'v) list \<Rightarrow> 'v TRow" where
  "dict_update d kvs = foldl (\<lambda>d (k, v). AList.update k v d) d kvs"

definition dict_of :: "(string \<times> 'v) list \<Rightarrow> 'v TRow" where
  "dict_of kvs = dict_update [] kvs"

text \<open>
  \<^verbatim>\<open>{k for k in row.keys() if k in row' and k not in keys}\<close>: the non-key field names of one
  row that the other row has too.
\<close>

definition shared_fields :: "string list \<Rightarrow> 'v TRow \<Rightarrow> 'v TRow \<Rightarrow> string set" where
  "shared_fields keys row row' =
     set (filter (\<lambda>k. map_of row' k \<noteq> None \<and> k \<notin> set keys) (map fst row))"

text \<open>
  The row \<^verbatim>\<open>res\<close> built for one pair of rows: the fields of the left row, renamed with the
  left suffix when in \<^verbatim>\<open>suffix_a\<close>, merged with the fields of the right row, renamed with the
  right suffix when in \<^verbatim>\<open>suffix_b\<close>.
\<close>

definition join_pair ::
  "string \<Rightarrow> string \<Rightarrow> string set \<Rightarrow> string set \<Rightarrow> 'v TRow \<Rightarrow> 'v TRow \<Rightarrow> 'v TRow" where
  "join_pair a_suffix b_suffix suffix_a suffix_b row_a row_b =
     dict_update
       (dict_of (map (\<lambda>(k, v). (if k \<in> suffix_a then k @ a_suffix else k, v)) row_a))
       (dict_of (map (\<lambda>(k, v). (if k \<in> suffix_b then k @ b_suffix else k, v)) row_b))"

text \<open>
  \<^verbatim>\<open>Joiner._inner_join\<close>. The inner loop over the materialised right rows for one left row,
  and the outer loop over the left rows. The variables \<^verbatim>\<open>suffix_a\<close> and \<^verbatim>\<open>suffix_b\<close> start
  as \<^verbatim>\<open>None\<close> and are set at the first pair only (\<^verbatim>\<open>if suffix_a is None\<close>).
\<close>

fun inner_join_row ::
  "string \<Rightarrow> string \<Rightarrow> string list \<Rightarrow> 'v TRow \<Rightarrow> 'v TRow list
     \<Rightarrow> string set option \<times> string set option
     \<Rightarrow> (string set option \<times> string set option) \<times> 'v TRow list" where
  "inner_join_row a_suffix b_suffix keys row_a [] sfx = (sfx, [])"
| "inner_join_row a_suffix b_suffix keys row_a (row_b # rows_b) (suffix_a, suffix_b) =
     (let suffix_a' = (case suffix_a of None \<Rightarrow> shared_fields keys row_a row_b | Some s \<Rightarrow> s);
          suffix_b' = (case suffix_b of None \<Rightarrow> shared_fields keys row_b row_a | Some s \<Rightarrow> s);
          res = join_pair a_suffix b_suffix suffix_a' suffix_b' row_a row_b;
          (sfx, out) = inner_join_row a_suffix b_suffix keys row_a rows_b
                         (Some suffix_a', Some suffix_b')
      in (sfx, res # out))"

fun inner_join_rows ::
  "string \<Rightarrow> string \<Rightarrow> string list \<Rightarrow> 'v TRow list \<Rightarrow> 'v TRow list
     \<Rightarrow> string set option \<times> string set option \<Rightarrow> 'v TRow list" where
  "inner_join_rows a_suffix b_suffix keys [] rows_b_cp sfx = []"
| "inner_join_rows a_suffix b_suffix keys (row_a # rows_a) rows_b_cp sfx =
     (let (sfx', out) = inner_join_row a_suffix b_suffix keys row_a rows_b_cp sfx
      in out @ inner_join_rows a_suffix b_suffix keys rows_a rows_b_cp sfx')"

definition inner_join ::
  "string \<Rightarrow> string \<Rightarrow> string list \<Rightarrow> 'v TRow rows_arg \<Rightarrow> 'v TRow rows_arg \<Rightarrow> 'v TRow list" where
  "inner_join a_suffix b_suffix keys rows_a rows_b =
     (let rows_b_cp = rows_of rows_b
      in inner_join_rows a_suffix b_suffix keys (rows_of rows_a) rows_b_cp (None, None))"

text \<open>
  \<^verbatim>\<open>InnerJoiner.__call__\<close>, for a joiner built with the two suffixes (defaults \<^verbatim>\<open>_1\<close> and
  \<^verbatim>\<open>_2\<close>).
\<close>

definition InnerJoiner ::
  "string \<Rightarrow> string \<Rightarrow> string list \<Rightarrow> 'v TRow rows_arg \<Rightarrow> 'v TRow rows_arg
     \<Rightarrow> error + 'v TRow list" where
  "InnerJoiner a_suffix b_suffix keys rows_a rows_b =
     (if truthy rows_a \<or> truthy rows_b
      then Inr (inner_join a_suffix b_suffix keys rows_a rows_b)
      else Inr [])"


text \<open>The field names of a row.\<close>

definition field_names :: "'v TRow \<Rightarrow> string set" where
  "field_names row = fst ` set row"

text \<open>
  The cross product of a left and a right group, left rows outermost: each pair of rows is
  combined by \<open>join_pair\<close>, with the shared non-key field names of the first left and the
  first right row as the names to suffix.
\<close>

definition cross_product ::
  "string \<Rightarrow> string \<Rightarrow> string list \<Rightarrow> 'v TRow list \<Rightarrow> 'v TRow list \<Rightarrow> 'v TRow list" where
  "cross_product a_suffix b_suffix keys ga gb =
     (case ga of
        [] \<Rightarrow> []
      | a0 # _ \<Rightarrow>
          (case gb of
             [] \<Rightarrow> []
           | b0 # _ \<Rightarrow>
               concat (map (\<lambda>row_a. map (\<lambda>row_b.
                   join_pair a_suffix b_suffix
                     (shared_fields keys a0 b0) (shared_fields keys b0 a0) row_a row_b) gb) ga)))"

lemma inner_join_row_Some:
  "inner_join_row sa sb keys row_a rows_b (Some s, Some t)
     = ((Some s, Some t), map (join_pair sa sb s t row_a) rows_b)"
  by (induction rows_b) simp_all

lemma inner_join_row_None:
  "inner_join_row sa sb keys row_a (row_b # rows_b) (None, None)
     = ((Some (shared_fields keys row_a row_b), Some (shared_fields keys row_b row_a)),
        map (join_pair sa sb (shared_fields keys row_a row_b) (shared_fields keys row_b row_a)
               row_a) (row_b # rows_b))"
  by (simp add: inner_join_row_Some Let_def)

lemma inner_join_rows_Some:
  "inner_join_rows sa sb keys rows_a rows_b (Some s, Some t)
     = concat (map (\<lambda>row_a. map (join_pair sa sb s t row_a) rows_b) rows_a)"
  by (induction rows_a) (simp_all add: inner_join_row_Some)

lemma inner_join_rows_no_right:
  "inner_join_rows sa sb keys rows_a [] sfx = []"
  by (induction rows_a) simp_all

lemma inner_join_cross_product:
  "inner_join sa sb keys rows_a rows_b
     = cross_product sa sb keys (rows_of rows_a) (rows_of rows_b)"
proof (cases "rows_of rows_a")
  case Nil
  then show ?thesis by (simp add: inner_join_def cross_product_def)
next
  case a: (Cons a0 as)
  show ?thesis
  proof (cases "rows_of rows_b")
    case Nil
    then show ?thesis
      by (simp add: inner_join_def cross_product_def a inner_join_rows_no_right)
  next
    case (Cons b0 bs)
    then show ?thesis
      unfolding inner_join_def cross_product_def a Let_def
      by (simp add: inner_join_row_None inner_join_rows_Some del: inner_join_row.simps)
  qed
qed


section \<open>Inner join of key-sorted streams\<close>

text \<open>
  The key projections of the left stream, each once and in input order, that occur in the
  right stream too, and the concatenation over them of a combination \<open>X\<close> of the two groups
  with that projection.
\<close>

definition common_keys :: "string list \<Rightarrow> 'v TRow list \<Rightarrow> 'v TRow list \<Rightarrow> 'v list list" where
  "common_keys keys A B =
     filter (\<lambda>k. k \<in> key_of keys ` set B) (remdups (map (key_of keys) A))"

definition join_groups ::
  "('v TRow list \<Rightarrow> 'v TRow list \<Rightarrow> 'o list) \<Rightarrow> string list \<Rightarrow> 'v TRow list \<Rightarrow> 'v TRow list
     \<Rightarrow> 'o list" where
  "join_groups X keys A B =
     concat (map (\<lambda>k. X (filter (\<lambda>r. key_of keys r = k) A) (filter (\<lambda>r. key_of keys r = k) B))
               (common_keys keys A B))"






lemma join_groups_Nil_right: "join_groups X keys A [] = []"
  by (simp add: join_groups_def common_keys_def)






lemma grouper_eq: "grouper keys = get_value keys"
  by (rule ext) (simp add: grouper_def)



lemma join_loop_step:
  assumes "join_body J keys st = Inr (Continue st' out)"
  shows "join_loop J keys st acc = join_loop J keys st' (acc @ out)"
  by (subst join_loop.simps) (simp add: assms)

lemma join_loop_break:
  assumes "join_body J keys st = Inr Break"
  shows "join_loop J keys st acc = Some (Inr acc)"
  by (subst join_loop.simps) (simp add: assms)

lemma join_body_advance:
  assumes "advance (need_take_a st) (grouper keys) (cur_a st) (groups_a st) = Inr (ca, ga)"
      and "advance (need_take_b st) (grouper keys) (cur_b st) (groups_b st) = Inr (cb, gb)"
  shows "join_body joiner keys st =
         (if cb = None \<and> ca = None then Inr Break
          else if map_option fst ca = map_option fst cb then
            (case joiner keys (or_empty ca) (or_empty cb) of
               Inl e \<Rightarrow> Inl e
             | Inr out \<Rightarrow>
                 Inr (Continue \<lparr>groups_a = ga, groups_b = gb, need_take_a = True,
                                need_take_b = True, cur_a = ca, cur_b = cb\<rparr> out))
          else if ca \<noteq> None \<and> (cb = None \<or> fst (the cb) \<ge> fst (the ca)) then
            (case joiner keys (or_empty ca) (PyList []) of
               Inl e \<Rightarrow> Inl e
             | Inr out \<Rightarrow>
                 Inr (Continue \<lparr>groups_a = ga, groups_b = gb, need_take_a = True,
                                need_take_b = False, cur_a = ca, cur_b = cb\<rparr> out))
          else
            (case joiner keys (PyList []) (or_empty cb) of
               Inl e \<Rightarrow> Inl e
             | Inr out \<Rightarrow>
                 Inr (Continue \<lparr>groups_a = ga, groups_b = gb, need_take_a = False,
                                need_take_b = True, cur_a = ca, cur_b = cb\<rparr> out)))"
  using assms unfolding join_body_def advance_def by simp















section \<open>The groups passed to the joiner\<close>

text \<open>
  The joiner that checks its arguments: it raises \<^verbatim>\<open>AssertionError\<close> when both groups are
  empty and yields nothing otherwise.
\<close>

definition asserting_joiner :: "string list \<Rightarrow> 'a rows_arg \<Rightarrow> 'a rows_arg \<Rightarrow> error + 'a list" where
  "asserting_joiner keys rows_a rows_b =
     (if rows_of rows_a = [] \<and> rows_of rows_b = [] then Inl AssertionError else Inr [])"

text \<open>Loop invariant: a current group, when there is one, is not empty.\<close>

definition groups_nonempty :: "('k, 'a) join_state \<Rightarrow> bool" where
  "groups_nonempty st =
     ((case cur_a st of None \<Rightarrow> True | Some (k, g) \<Rightarrow> g \<noteq> [])
    \<and> (case cur_b st of None \<Rightarrow> True | Some (k, g) \<Rightarrow> g \<noteq> []))"

lemma get_value_error: "get_value keys row = Inl e \<Longrightarrow> e = KeyError"
  by (induction keys arbitrary: e) (auto simp: getitem_def split: option.splits sum.splits)

lemma advance_error: "advance need (grouper keys) cur rows = Inl e \<Longrightarrow> e = KeyError"
  by (auto simp: advance_def take_next_from_iterable_def groupby_next_def grouper_eq
           dest: get_value_error split: if_splits list.splits sum.splits option.splits)

lemma advance_nonempty:
  assumes "advance need keyf cur rows = Inr (c, rest)"
      and "case cur of None \<Rightarrow> True | Some (k, g) \<Rightarrow> g \<noteq> []"
  shows "case c of None \<Rightarrow> True | Some (k, g) \<Rightarrow> g \<noteq> []"
  using assms
  by (auto simp: advance_def take_next_from_iterable_def groupby_next_def
           split: if_splits list.splits sum.splits option.splits)

lemma or_empty_nonempty:
  "c \<noteq> None \<Longrightarrow> (case c of None \<Rightarrow> True | Some (k, g) \<Rightarrow> g \<noteq> []) \<Longrightarrow> rows_of (or_empty c) \<noteq> []"
  by (auto simp: or_empty_def split: option.splits)

lemma join_body_cases:
  fixes joiner :: "string list \<Rightarrow> 'v::linorder TRow rows_arg \<Rightarrow> 'v TRow rows_arg \<Rightarrow> error + 'o list"
  assumes "groups_nonempty st"
  obtains (key_error) "join_body joiner keys st = Inl KeyError"
    | (exhausted) "join_body joiner keys st = Inr Break"
    | (call) x y st' where
        "rows_of x \<noteq> [] \<or> rows_of y \<noteq> []" "groups_nonempty st'"
        "join_body joiner keys st =
           (case joiner keys x y of Inl e \<Rightarrow> Inl e | Inr out \<Rightarrow> Inr (Continue st' out))"
proof (cases "advance (need_take_a st) (grouper keys) (cur_a st) (groups_a st)")
  case (Inl e)
  then have "e = KeyError" by (rule advance_error)
  with Inl have "join_body joiner keys st = Inl KeyError"
    by (simp add: join_body_def advance_def)
  then show ?thesis by (rule key_error)
next
  case a: (Inr pa)
  obtain ca ga where pa: "pa = (ca, ga)" by (cases pa)
  note a = a [unfolded pa]
  show ?thesis
  proof (cases "advance (need_take_b st) (grouper keys) (cur_b st) (groups_b st)")
    case (Inl e)
    then have "e = KeyError" by (rule advance_error)
    with Inl a have "join_body joiner keys st = Inl KeyError"
      by (simp add: join_body_def advance_def)
    then show ?thesis by (rule key_error)
  next
    case b: (Inr pb)
    obtain cb gb where pb: "pb = (cb, gb)" by (cases pb)
    note b = b [unfolded pb]
    note body = join_body_advance [OF a b, of joiner]
    have na: "case ca of None \<Rightarrow> True | Some (k, g) \<Rightarrow> g \<noteq> []"
      using advance_nonempty [OF a] assms by (simp add: groups_nonempty_def)
    have nb: "case cb of None \<Rightarrow> True | Some (k, g) \<Rightarrow> g \<noteq> []"
      using advance_nonempty [OF b] assms by (simp add: groups_nonempty_def)
    have gn: "groups_nonempty \<lparr>groups_a = ga, groups_b = gb, need_take_a = fa,
                need_take_b = fb, cur_a = ca, cur_b = cb\<rparr>" for fa fb
      using na nb by (simp add: groups_nonempty_def)
    consider (none) "cb = None \<and> ca = None"
      | (eq) "\<not> (cb = None \<and> ca = None)" "map_option fst ca = map_option fst cb"
      | (left) "\<not> (cb = None \<and> ca = None)" "map_option fst ca \<noteq> map_option fst cb"
               "ca \<noteq> None \<and> (cb = None \<or> fst (the cb) \<ge> fst (the ca))"
      | (right) "\<not> (cb = None \<and> ca = None)" "map_option fst ca \<noteq> map_option fst cb"
               "\<not> (ca \<noteq> None \<and> (cb = None \<or> fst (the cb) \<ge> fst (the ca)))"
      by blast
    then show ?thesis
    proof cases
      case none
      then have "join_body joiner keys st = Inr Break" by (simp add: body)
      then show ?thesis by (rule exhausted)
    next
      case eq
      then have "ca \<noteq> None" by (cases ca; cases cb) auto
      then have h1: "rows_of (or_empty ca) \<noteq> [] \<or> rows_of (or_empty cb) \<noteq> []"
        using na by (simp add: or_empty_nonempty)
      have h2: "join_body joiner keys st =
           (case joiner keys (or_empty ca) (or_empty cb) of Inl e \<Rightarrow> Inl e
            | Inr out \<Rightarrow> Inr (Continue \<lparr>groups_a = ga, groups_b = gb, need_take_a = True,
                                need_take_b = True, cur_a = ca, cur_b = cb\<rparr> out))"
        using eq by (auto simp: body)
      show ?thesis by (rule call [OF h1 gn h2])
    next
      case left
      then have h1: "rows_of (or_empty ca) \<noteq> [] \<or> rows_of (PyList [] :: 'v TRow rows_arg) \<noteq> []"
        using na by (simp add: or_empty_nonempty)
      have h2: "join_body joiner keys st =
           (case joiner keys (or_empty ca) (PyList []) of Inl e \<Rightarrow> Inl e
            | Inr out \<Rightarrow> Inr (Continue \<lparr>groups_a = ga, groups_b = gb, need_take_a = True,
                                need_take_b = False, cur_a = ca, cur_b = cb\<rparr> out))"
        using left by (auto simp: body)
      show ?thesis by (rule call [OF h1 gn h2])
    next
      case right
      then have "cb \<noteq> None" by (cases ca; cases cb) auto
      then have h1: "rows_of (PyList [] :: 'v TRow rows_arg) \<noteq> [] \<or> rows_of (or_empty cb) \<noteq> []"
        using nb by (simp add: or_empty_nonempty)
      have h2: "join_body joiner keys st =
           (case joiner keys (PyList []) (or_empty cb) of Inl e \<Rightarrow> Inl e
            | Inr out \<Rightarrow> Inr (Continue \<lparr>groups_a = ga, groups_b = gb, need_take_a = False,
                                need_take_b = True, cur_a = ca, cur_b = cb\<rparr> out))"
        using right by (auto simp: body)
      show ?thesis by (rule call [OF h1 gn h2])
    qed
  qed
qed

lemma join_loop_recording:
  assumes "groups_nonempty st"
      and "\<forall>(x, y)\<in>set acc. rows_of x \<noteq> [] \<or> rows_of y \<noteq> []"
      and "join_loop recording_joiner keys st acc = Some (Inr calls)"
  shows "\<forall>(x, y)\<in>set calls. rows_of x \<noteq> [] \<or> rows_of y \<noteq> []"
  using assms
proof (induction "join_measure st" arbitrary: st acc rule: less_induct)
  case less
  from less.prems(1) show ?case
  proof (cases rule: join_body_cases [where joiner = recording_joiner and keys = keys])
    case key_error
    with less.prems(3) show ?thesis by (simp add: join_loop.simps [of _ _ st])
  next
    case exhausted
    with less.prems(2,3) show ?thesis by (simp add: join_loop_break)
  next
    case (call x y st')
    then have body: "join_body recording_joiner keys st = Inr (Continue st' [(x, y)])"
      by (simp add: recording_joiner_def)
    show ?thesis
    proof (rule less.hyps [OF join_body_decreases [OF body] call(2)])
      show "\<forall>(x, y)\<in>set (acc @ [(x, y)]). rows_of x \<noteq> [] \<or> rows_of y \<noteq> []"
        using less.prems(2) call(1) by auto
      show "join_loop recording_joiner keys st' (acc @ [(x, y)]) = Some (Inr calls)"
        using less.prems(3) by (simp add: join_loop_step [OF body])
    qed
  qed
qed

lemma join_loop_asserting:
  assumes "groups_nonempty st"
  shows "join_loop asserting_joiner keys st acc \<noteq> Some (Inl AssertionError)"
  using assms
proof (induction "join_measure st" arbitrary: st acc rule: less_induct)
  case less
  from less.prems(1) show ?case
  proof (cases rule: join_body_cases [where joiner = asserting_joiner and keys = keys])
    case key_error
    then show ?thesis by (simp add: join_loop.simps [of _ _ st])
  next
    case exhausted
    then show ?thesis by (simp add: join_loop_break)
  next
    case (call x y st')
    then have body: "join_body asserting_joiner keys st = Inr (Continue st' [])"
      by (auto simp: asserting_joiner_def)
    show ?thesis
      unfolding join_loop_step [OF body]
      by (rule less.hyps [OF join_body_decreases [OF body] call(2)])
  qed
qed

text \<open>
  C7. Whenever Join invokes its joiner, at least one of the two groups passed to it is
  not empty: in every run that ends normally each recorded invocation has a non-empty
  group, and in no run, also one that a missing key field ends with an exception, is the
  joiner invoked with two empty groups (the checking joiner never raises).
\<close>

theorem Join_joiner_groups_not_both_empty:
  "(\<forall>calls. Join recording_joiner keys rows_a rows_b = Some (Inr calls)
       \<longrightarrow> (\<forall>(x, y)\<in>set calls. rows_of x \<noteq> [] \<or> rows_of y \<noteq> []))
   \<and> Join asserting_joiner keys rows_a rows_b \<noteq> Some (Inl AssertionError)"
proof -
  have init: "groups_nonempty \<lparr>groups_a = rows_a, groups_b = rows_b, need_take_a = True,
                need_take_b = True, cur_a = None, cur_b = None\<rparr>"
    by (simp add: groups_nonempty_def)
  show ?thesis
    unfolding Join_def
    using join_loop_recording [OF init, of "[]" keys] join_loop_asserting [OF init, of keys "[]"]
    by simp
qed

theorem Join_joiner_groups_not_both_empty_witness:
  "Join recording_joiner [''k''] example_left example_right
   = Some (Inr [(PyList [], Grouper [[(''k'', 0), (''y'', 1)]]),
       (Grouper [[(''k'', 1), (''x'', 10)], [(''k'', 1), (''x'', 11)]],
        Grouper [[(''k'', 1), (''y'', 2)]]),
       (Grouper [[(''k'', 3), (''x'', 12)]], PyList []),
       (PyList [], Grouper [[(''k'', 4), (''y'', 3)]])])
   \<and> list_all (\<lambda>(x, y). rows_of x \<noteq> [] \<or> rows_of y \<noteq> [])
       [(PyList [], Grouper [[(''k'', 0::int), (''y'', 1)]]),
        (Grouper [[(''k'', 1::int), (''x'', 10)], [(''k'', 1), (''x'', 11)]],
         Grouper [[(''k'', 1), (''y'', 2)]]),
        (Grouper [[(''k'', 3), (''x'', 12)]], PyList []),
        (PyList [], Grouper [[(''k'', 4), (''y'', 3)]])]"
  (is "?run \<and> list_all ?P ?calls")
proof -
  have run: ?run
    by code_simp
  have "\<forall>c\<in>set ?calls. ?P c"
    by (rule Join_joiner_groups_not_both_empty [of "[''k'']" example_left example_right,
              THEN conjunct1, THEN spec, THEN mp, OF run])
  then have "list_all ?P ?calls"
    unfolding list_all_iff .
  with run show ?thesis by (rule conjI)
qed

section \<open>The suffix policy of the joiners\<close>

lemma field_names_dict_update:
  "field_names (dict_update d kvs) = field_names d \<union> field_names kvs"
proof (induction kvs arbitrary: d)
  case Nil
  then show ?case by (simp add: dict_update_def field_names_def)
next
  case (Cons kv kvs)
  obtain k v where kv: "kv = (k, v)" by (cases kv)
  have "dict_update d (kv # kvs) = dict_update (AList.update k v d) kvs"
    by (simp add: dict_update_def kv)
  moreover have "field_names (AList.update k v d) = insert k (field_names d)"
    by (simp add: field_names_def dom_update)
  moreover have "field_names (kv # kvs) = insert k (field_names kvs)"
    by (simp add: field_names_def kv)
  ultimately show ?case by (simp add: Cons.IH)
qed

lemma field_names_dict_of: "field_names (dict_of kvs) = field_names kvs"
  unfolding dict_of_def field_names_dict_update by (simp add: field_names_def)

lemma field_names_renamed: "field_names (map (\<lambda>(k, v). (h k, v)) row) = h ` field_names row"
  by (simp add: field_names_def image_image case_prod_beta)

lemma field_names_join_pair:
  "field_names (join_pair sa sb S T row_a row_b)
     = (\<lambda>k. if k \<in> S then k @ sa else k) ` field_names row_a
     \<union> (\<lambda>k. if k \<in> T then k @ sb else k) ` field_names row_b"
  unfolding join_pair_def field_names_dict_update field_names_dict_of field_names_renamed ..

lemma shared_fields_iff:
  "k \<in> shared_fields keys row row' \<longleftrightarrow> k \<in> field_names row \<and> k \<in> field_names row' \<and> k \<notin> set keys"
  by (auto simp: shared_fields_def field_names_def map_of_eq_None_iff image_iff)

lemma shared_fields_commute: "shared_fields keys row row' = shared_fields keys row' row"
  by (auto simp: shared_fields_iff)

text \<open>
  The name a field is emitted under, \<^verbatim>\<open>k + suffix if k in suffix_set else k\<close>, and the row
  \<^verbatim>\<open>_inner_join\<close> yields for a pair of rows in an invocation whose first left row is \<open>a0\<close> and
  whose first right row is \<open>b0\<close>.
\<close>

definition renamed :: "string set \<Rightarrow> string \<Rightarrow> string \<Rightarrow> string" where
  "renamed suffix_set suffix k = (if k \<in> suffix_set then k @ suffix else k)"

definition joined_row ::
  "string \<Rightarrow> string \<Rightarrow> string list \<Rightarrow> 'v TRow \<Rightarrow> 'v TRow \<Rightarrow> 'v TRow \<Rightarrow> 'v TRow \<Rightarrow> 'v TRow" where
  "joined_row a_suffix b_suffix keys a0 b0 row_a row_b =
     join_pair a_suffix b_suffix (shared_fields keys a0 b0) (shared_fields keys b0 a0) row_a row_b"

lemma map_of_dict_update: "map_of (dict_update d kvs) = map_of d ++ map_of (rev kvs)"
proof (induction kvs arbitrary: d)
  case Nil
  then show ?case by (simp add: dict_update_def)
next
  case (Cons kv kvs)
  obtain k v where kv: "kv = (k, v)" by (cases kv)
  have step: "dict_update d (kv # kvs) = dict_update (AList.update k v d) kvs"
    by (simp add: dict_update_def kv)
  show ?case
    unfolding step Cons.IH
    by (rule ext) (simp add: map_add_def update_conv' kv split: option.splits)
qed

lemma distinct_dict_update:
  "distinct (map fst d) \<Longrightarrow> distinct (map fst (dict_update d kvs))"
proof (induction kvs arbitrary: d)
  case Nil
  then show ?case by (simp add: dict_update_def)
next
  case (Cons kv kvs)
  obtain k v where kv: "kv = (k, v)" by (cases kv)
  have "dict_update d (kv # kvs) = dict_update (AList.update k v d) kvs"
    by (simp add: dict_update_def kv)
  with Cons show ?case by (simp add: distinct_update)
qed

lemma map_of_rev_distinct: "distinct (map fst xs) \<Longrightarrow> map_of (rev xs) = map_of xs"
  by (rule map_of_inject_set [THEN iffD2]) (simp_all add: rev_map [symmetric])

lemma map_of_dict_of: "map_of (dict_of kvs) = map_of (rev kvs)"
  by (simp add: dict_of_def map_of_dict_update)

lemma map_of_join_pair:
  "map_of (join_pair sa sb S T row_a row_b)
     = map_of (rev (map (\<lambda>(k, v). (renamed S sa k, v)) row_a))
       ++ map_of (rev (map (\<lambda>(k, v). (renamed T sb k, v)) row_b))"
proof -
  let ?R = "map (\<lambda>(k, v). (if k \<in> T then k @ sb else k, v)) row_b"
  have "distinct (map fst (dict_of ?R))"
    unfolding dict_of_def by (rule distinct_dict_update) simp
  then have "map_of (rev (dict_of ?R)) = map_of (rev ?R)"
    by (simp add: map_of_rev_distinct map_of_dict_of)
  then show ?thesis
    by (simp add: join_pair_def map_of_dict_update map_of_dict_of renamed_def [abs_def])
qed

lemma map_of_renamed:
  assumes "distinct (map fst row)" "k \<in> field_names row"
      and "\<forall>k'\<in>field_names row. h k' = h k \<longrightarrow> k' = k"
  shows "map_of (rev (map (\<lambda>(k, v). (h k, v)) row)) (h k) = map_of row k"
proof -
  let ?P = "rev (map (\<lambda>(k, v). (h k, v)) row)"
  from assms(2) obtain v where v: "(k, v) \<in> set row" by (auto simp: field_names_def)
  with assms(1) have row: "map_of row k = Some v" by simp
  from v have "(h k, v) \<in> set ?P" by force
  then obtain x where x: "map_of ?P (h k) = Some x" by (blast dest: weak_map_of_SomeI)
  then have "(h k, x) \<in> set ?P" by (rule map_of_SomeD)
  then obtain k' where k': "(k', x) \<in> set row" "h k' = h k" by auto
  then have "k' \<in> field_names row" by (force simp: field_names_def)
  with assms(3) k'(2) have "k' = k" by blast
  with k'(1) assms(1) have "map_of row k = Some x" by simp
  with row x show ?thesis by simp
qed

lemma map_of_renamed_None:
  assumes "\<forall>k'\<in>field_names row. h k' \<noteq> n"
  shows "map_of (rev (map (\<lambda>(k, v). (h k, v)) row)) n = None"
  using assms by (force simp: map_of_eq_None_iff field_names_def)

lemma field_names_joined_row:
  "field_names (joined_row sa sb keys a0 b0 row_a row_b)
     = renamed (shared_fields keys a0 b0) sa ` field_names row_a
     \<union> renamed (shared_fields keys a0 b0) sb ` field_names row_b"
  unfolding joined_row_def field_names_join_pair shared_fields_commute [of keys b0 a0]
    renamed_def [abs_def] ..

lemma map_of_joined_row:
  "map_of (joined_row sa sb keys a0 b0 row_a row_b)
     = map_of (rev (map (\<lambda>(k, v). (renamed (shared_fields keys a0 b0) sa k, v)) row_a))
       ++ map_of (rev (map (\<lambda>(k, v). (renamed (shared_fields keys a0 b0) sb k, v)) row_b))"
  unfolding joined_row_def map_of_join_pair shared_fields_commute [of keys b0 a0] ..

lemma inner_join_joined_rows:
  assumes "rows_of rows_a = a0 # as" "rows_of rows_b = b0 # bs"
  shows "inner_join sa sb keys rows_a rows_b
           = concat (map (\<lambda>row_a. map (joined_row sa sb keys a0 b0 row_a) (b0 # bs)) (a0 # as))"
  unfolding inner_join_cross_product assms cross_product_def joined_row_def [abs_def] by simp

text \<open>
  C2, as the code has it. \<^verbatim>\<open>_inner_join\<close> computes the names to suffix once per invocation
  (\<^verbatim>\<open>if suffix_a is None\<close>): the non-key field names shared by the first left row \<open>a0\<close> and
  the first right row \<open>b0\<close>. It yields, for the pairs of the two groups in order, the rows
  \<open>joined_row\<close>. In the row yielded for any pair, each of these names is emitted with the left
  suffix when the left row has the field and with the right suffix when the right row has
  it, so a non-key field name that is in both rows of the pair and in both first rows is
  emitted twice, under two names when the suffixes differ; this covers every shared name of
  the first pair, and of any pair whose shared non-key names are among those of the first
  pair. Every key field of either row is emitted under its own name, whatever the pair.
  The suffixed name carries the value of the right field when no other field of the right
  row is emitted under that name, and the value of the left field when no other field of
  either row is.
\<close>

theorem inner_join_suffix_policy:
  assumes "rows_of rows_a = a0 # as" and "rows_of rows_b = b0 # bs"
  shows "inner_join a_suffix b_suffix keys rows_a rows_b
           = concat (map (\<lambda>row_a. map (joined_row a_suffix b_suffix keys a0 b0 row_a) (b0 # bs))
                       (a0 # as))
       \<and> (\<forall>row_a row_b k.
            (k \<in> shared_fields keys a0 b0 \<and> k \<in> field_names row_a \<longrightarrow>
               k @ a_suffix \<in> field_names (joined_row a_suffix b_suffix keys a0 b0 row_a row_b))
          \<and> (k \<in> shared_fields keys a0 b0 \<and> k \<in> field_names row_b \<longrightarrow>
               k @ b_suffix \<in> field_names (joined_row a_suffix b_suffix keys a0 b0 row_a row_b))
          \<and> (a_suffix \<noteq> b_suffix \<longrightarrow> k @ a_suffix \<noteq> k @ b_suffix)
          \<and> (k \<in> set keys \<and> (k \<in> field_names row_a \<or> k \<in> field_names row_b) \<longrightarrow>
               k \<in> field_names (joined_row a_suffix b_suffix keys a0 b0 row_a row_b))
          \<and> (k \<in> shared_fields keys a0 b0 \<and> k \<in> field_names row_b \<and> distinct (map fst row_b)
               \<and> (\<forall>k'\<in>field_names row_b.
                     renamed (shared_fields keys a0 b0) b_suffix k' = k @ b_suffix \<longrightarrow> k' = k) \<longrightarrow>
               map_of (joined_row a_suffix b_suffix keys a0 b0 row_a row_b) (k @ b_suffix)
                 = map_of row_b k)
          \<and> (k \<in> shared_fields keys a0 b0 \<and> k \<in> field_names row_a \<and> distinct (map fst row_a)
               \<and> (\<forall>k'\<in>field_names row_a.
                     renamed (shared_fields keys a0 b0) a_suffix k' = k @ a_suffix \<longrightarrow> k' = k)
               \<and> (\<forall>k'\<in>field_names row_b.
                     renamed (shared_fields keys a0 b0) b_suffix k' \<noteq> k @ a_suffix) \<longrightarrow>
               map_of (joined_row a_suffix b_suffix keys a0 b0 row_a row_b) (k @ a_suffix)
                 = map_of row_a k))"
proof -
  let ?S = "shared_fields keys a0 b0"
  let ?res = "joined_row a_suffix b_suffix keys a0 b0"
  note f = field_names_joined_row [of a_suffix b_suffix keys a0 b0]
  note m = map_of_joined_row [of a_suffix b_suffix keys a0 b0]
  have left_name: "k @ a_suffix \<in> field_names (?res row_a row_b)"
    if "k \<in> ?S" "k \<in> field_names row_a" for row_a row_b :: "'a TRow" and k
  proof -
    from that(1) have "renamed ?S a_suffix k = k @ a_suffix" by (simp add: renamed_def)
    with that(2) show ?thesis unfolding f by (metis UnI1 imageI)
  qed
  have right_name: "k @ b_suffix \<in> field_names (?res row_a row_b)"
    if "k \<in> ?S" "k \<in> field_names row_b" for row_a row_b :: "'a TRow" and k
  proof -
    from that(1) have "renamed ?S b_suffix k = k @ b_suffix" by (simp add: renamed_def)
    with that(2) show ?thesis unfolding f by (metis UnI2 imageI)
  qed
  have key_name: "k \<in> field_names (?res row_a row_b)"
    if "k \<in> set keys" "k \<in> field_names row_a \<or> k \<in> field_names row_b"
    for row_a row_b :: "'a TRow" and k
  proof -
    from that(1) have "k \<notin> ?S" by (simp add: shared_fields_iff)
    then have "renamed ?S a_suffix k = k" "renamed ?S b_suffix k = k"
      by (simp_all add: renamed_def)
    with that(2) show ?thesis unfolding f by (metis UnI1 UnI2 imageI)
  qed
  have right_value: "map_of (?res row_a row_b) (k @ b_suffix) = map_of row_b k"
    if "k \<in> ?S" "k \<in> field_names row_b" "distinct (map fst row_b)"
      "\<forall>k'\<in>field_names row_b. renamed ?S b_suffix k' = k @ b_suffix \<longrightarrow> k' = k"
    for row_a row_b :: "'a TRow" and k
  proof -
    from that(1) have r: "renamed ?S b_suffix k = k @ b_suffix" by (simp add: renamed_def)
    from that(2) obtain v where v: "(k, v) \<in> set row_b" by (auto simp: field_names_def)
    with that(3) have row: "map_of row_b k = Some v" by simp
    have "map_of (rev (map (\<lambda>(k, v). (renamed ?S b_suffix k, v)) row_b))
            (renamed ?S b_suffix k) = map_of row_b k"
      by (rule map_of_renamed [OF that(3) that(2)]) (use that(4) r in simp)
    with row show ?thesis unfolding m r by (simp add: map_add_def)
  qed
  have left_value: "map_of (?res row_a row_b) (k @ a_suffix) = map_of row_a k"
    if "k \<in> ?S" "k \<in> field_names row_a" "distinct (map fst row_a)"
      "\<forall>k'\<in>field_names row_a. renamed ?S a_suffix k' = k @ a_suffix \<longrightarrow> k' = k"
      "\<forall>k'\<in>field_names row_b. renamed ?S b_suffix k' \<noteq> k @ a_suffix"
    for row_a row_b :: "'a TRow" and k
  proof -
    from that(1) have r: "renamed ?S a_suffix k = k @ a_suffix" by (simp add: renamed_def)
    have none: "map_of (rev (map (\<lambda>(k, v). (renamed ?S b_suffix k, v)) row_b)) (k @ a_suffix)
                  = None"
      by (rule map_of_renamed_None [OF that(5)])
    have "map_of (rev (map (\<lambda>(k, v). (renamed ?S a_suffix k, v)) row_a))
            (renamed ?S a_suffix k) = map_of row_a k"
      by (rule map_of_renamed [OF that(3) that(2)]) (use that(4) r in simp)
    with none show ?thesis unfolding m r by (simp add: map_add_def)
  qed
  have "inner_join a_suffix b_suffix keys rows_a rows_b
           = concat (map (\<lambda>row_a. map (?res row_a) (b0 # bs)) (a0 # as))"
    by (rule inner_join_joined_rows [OF assms])
  then show ?thesis
    using left_name right_name key_name right_value left_value by blast
qed

text \<open>
  A left and a right group of two rows each. The first pair shares \<^verbatim>\<open>x\<close> and \<^verbatim>\<open>y\<close>, the last
  pair shares \<^verbatim>\<open>x\<close> only.
\<close>

definition example_a0 :: "int TRow" where
  "example_a0 = [(''k'', 1), (''x'', 1), (''y'', 2)]"

definition example_a1 :: "int TRow" where
  "example_a1 = [(''k'', 1), (''x'', 10), (''z'', 7)]"

definition example_b0 :: "int TRow" where
  "example_b0 = [(''k'', 1), (''x'', 3), (''y'', 4)]"

definition example_b1 :: "int TRow" where
  "example_b1 = [(''k'', 1), (''x'', 20)]"

theorem inner_join_suffix_policy_witness:
  "inner_join ''_1'' ''_2'' [''k''] (Grouper [example_a0, example_a1])
       (Grouper [example_b0, example_b1])
     = [[(''k'', 1), (''x_1'', 1), (''y_1'', 2), (''x_2'', 3), (''y_2'', 4)],
        [(''k'', 1), (''x_1'', 1), (''y_1'', 2), (''x_2'', 20)],
        [(''k'', 1), (''x_1'', 10), (''z'', 7), (''x_2'', 3), (''y_2'', 4)],
        [(''k'', 1), (''x_1'', 10), (''z'', 7), (''x_2'', 20)]]
   \<and> shared_fields [''k''] example_a0 example_b0 = {''x'', ''y''}
   \<and> shared_fields [''k''] example_a1 example_b1 = {''x''}
   \<and> ''x'' @ ''_1'' \<in> field_names (joined_row ''_1'' ''_2'' [''k''] example_a0 example_b0
                                      example_a1 example_b1)
   \<and> ''x'' @ ''_2'' \<in> field_names (joined_row ''_1'' ''_2'' [''k''] example_a0 example_b0
                                      example_a1 example_b1)
   \<and> ''k'' \<in> field_names (joined_row ''_1'' ''_2'' [''k''] example_a0 example_b0
                            example_a1 example_b1)
   \<and> map_of (joined_row ''_1'' ''_2'' [''k''] example_a0 example_b0 example_a1 example_b1)
        (''x'' @ ''_1'') = map_of example_a1 ''x''
   \<and> map_of (joined_row ''_1'' ''_2'' [''k''] example_a0 example_b0 example_a1 example_b1)
        (''x'' @ ''_2'') = map_of example_b1 ''x''"
proof -
  have ga: "rows_of (Grouper [example_a0, example_a1]) = example_a0 # [example_a1]"
    and gb: "rows_of (Grouper [example_b0, example_b1]) = example_b0 # [example_b1]"
    by simp_all
  have S: "shared_fields [''k''] example_a0 example_b0 = {''x'', ''y''}"
    by (auto simp: shared_fields_def example_a0_def example_b0_def)
  have S1: "shared_fields [''k''] example_a1 example_b1 = {''x''}"
    by (auto simp: shared_fields_def example_a1_def example_b1_def)
  have x: "''x'' \<in> shared_fields [''k''] example_a0 example_b0" by (simp add: S)
  have xa: "''x'' \<in> field_names example_a1" and xb: "''x'' \<in> field_names example_b1"
    and k: "''k'' \<in> set [''k'']"
    and ka: "''k'' \<in> field_names example_a1 \<or> ''k'' \<in> field_names example_b1"
    by (simp_all add: field_names_def example_a1_def example_b1_def)
  have da: "distinct (map fst example_a1)" and db: "distinct (map fst example_b1)"
    by (simp_all add: example_a1_def example_b1_def)
  have ua: "\<forall>k'\<in>field_names example_a1.
              renamed (shared_fields [''k''] example_a0 example_b0) ''_1'' k' = ''x'' @ ''_1''
                \<longrightarrow> k' = ''x''"
    and ub: "\<forall>k'\<in>field_names example_b1.
              renamed (shared_fields [''k''] example_a0 example_b0) ''_2'' k' = ''x'' @ ''_2''
                \<longrightarrow> k' = ''x''"
    and nb: "\<forall>k'\<in>field_names example_b1.
              renamed (shared_fields [''k''] example_a0 example_b0) ''_2'' k' \<noteq> ''x'' @ ''_1''"
    by (simp_all add: S renamed_def field_names_def example_a1_def example_b1_def)
  note t = inner_join_suffix_policy [OF ga gb, of "''_1''" "''_2''" "[''k'']"]
  have run: "inner_join ''_1'' ''_2'' [''k''] (Grouper [example_a0, example_a1])
       (Grouper [example_b0, example_b1])
     = [[(''k'', 1), (''x_1'', 1), (''y_1'', 2), (''x_2'', 3), (''y_2'', 4)],
        [(''k'', 1), (''x_1'', 1), (''y_1'', 2), (''x_2'', 20)],
        [(''k'', 1), (''x_1'', 10), (''z'', 7), (''x_2'', 3), (''y_2'', 4)],
        [(''k'', 1), (''x_1'', 10), (''z'', 7), (''x_2'', 20)]]"
    unfolding t [THEN conjunct1] by code_simp
  note p = t [THEN conjunct2, THEN spec [of _ example_a1], THEN spec [of _ example_b1],
              THEN spec [of _ "''x''"]]
  have n1: "''x'' @ ''_1'' \<in> field_names (joined_row ''_1'' ''_2'' [''k''] example_a0 example_b0
                                      example_a1 example_b1)"
    using p x xa by blast
  have n2: "''x'' @ ''_2'' \<in> field_names (joined_row ''_1'' ''_2'' [''k''] example_a0 example_b0
                                      example_a1 example_b1)"
    using p x xb by blast
  have nk: "''k'' \<in> field_names (joined_row ''_1'' ''_2'' [''k''] example_a0 example_b0
                            example_a1 example_b1)"
    using t [THEN conjunct2, THEN spec [of _ example_a1], THEN spec [of _ example_b1],
             THEN spec [of _ "''k''"]] k ka by blast
  have v1: "map_of (joined_row ''_1'' ''_2'' [''k''] example_a0 example_b0 example_a1 example_b1)
        (''x'' @ ''_1'') = map_of example_a1 ''x''"
    using p x xa da ua nb by blast
  have v2: "map_of (joined_row ''_1'' ''_2'' [''k''] example_a0 example_b0 example_a1 example_b1)
        (''x'' @ ''_2'') = map_of example_b1 ''x''"
    using p x xb db ub by blast
  from run S S1 n1 n2 nk v1 v2 show ?thesis by (intro conjI)
qed

text \<open>
  The claim fails for a later pair whose shared field names differ from those of the first
  pair. The left group is \<^verbatim>\<open>{k: 1, x: 1}, {k: 1, y: 2}\<close> and the right group is
  \<^verbatim>\<open>{k: 1, y: 5}\<close>: the first pair shares no non-key field, so nothing is suffixed, and the
  second pair, whose rows both carry the non-key field \<^verbatim>\<open>y\<close>, is emitted as
  \<^verbatim>\<open>{k: 1, y: 5}\<close>, with neither \<^verbatim>\<open>y_1\<close> nor \<^verbatim>\<open>y_2\<close>.
\<close>

theorem inner_join_suffix_policy_counterexample:
  "Join (InnerJoiner ''_1'' ''_2'') [''k'']
     [[(''k'', 1::int), (''x'', 1)], [(''k'', 1), (''y'', 2)]] [[(''k'', 1), (''y'', 5)]]
     = Some (Inr [[(''k'', 1), (''x'', 1), (''y'', 5)], [(''k'', 1), (''y'', 5)]])
   \<and> key_sorted [''k''] [[(''k'', 1::int), (''x'', 1)], [(''k'', 1), (''y'', 2)]]
   \<and> key_sorted [''k''] [[(''k'', 1::int), (''y'', 5)]]
   \<and> ''y'' \<in> field_names [(''k'', 1::int), (''y'', 2)] \<and> ''y'' \<in> field_names [(''k'', 1::int), (''y'', 5)]
   \<and> ''y'' \<notin> set [''k'']
   \<and> ''y_1'' \<notin> field_names [(''k'', 1::int), (''y'', 5)]
   \<and> ''y_2'' \<notin> field_names [(''k'', 1::int), (''y'', 5)]"
proof -
  have "Join (InnerJoiner ''_1'' ''_2'') [''k'']
     [[(''k'', 1::int), (''x'', 1)], [(''k'', 1), (''y'', 2)]] [[(''k'', 1), (''y'', 5)]]
     = Some (Inr [[(''k'', 1), (''x'', 1), (''y'', 5)], [(''k'', 1), (''y'', 5)]])"
    by code_simp
  moreover have "key_sorted [''k''] [[(''k'', 1::int), (''x'', 1)], [(''k'', 1), (''y'', 2)]]"
    by code_simp
  moreover have "key_sorted [''k''] [[(''k'', 1::int), (''y'', 5)]]"
    by code_simp
  moreover have "''y'' \<in> field_names [(''k'', 1::int), (''y'', 2)]"
    "''y'' \<in> field_names [(''k'', 1::int), (''y'', 5)]" "''y'' \<notin> set [''k'']"
    "''y_1'' \<notin> field_names [(''k'', 1::int), (''y'', 5)]"
    "''y_2'' \<notin> field_names [(''k'', 1::int), (''y'', 5)]"
    by (simp_all add: field_names_def)
  ultimately show ?thesis by (intro conjI)
qed

section \<open>The graph builder and the executor\<close>

text \<open>
  \<^verbatim>\<open>Graph.operations\<close> is a Python list of callables that the builder methods append to:
  \<^verbatim>\<open>ops.Map(mapper)\<close>, \<^verbatim>\<open>ops.Reduce(reducer, tuple(keys))\<close>, \<^verbatim>\<open>sort.ExternalSort(keys)\<close> and
  the closure \<^verbatim>\<open>join_op\<close>, which captures the joiner, a reference to the other graph and
  the keys. Mappers, reducers and joiners are left abstract.
\<close>

datatype ('m, 'r, 'j) stage =
    Map_stage 'm
  | Reduce_stage 'r "string list"
  | ExternalSort_stage "string list"
  | join_op 'j nat "string list"

text \<open>
  A \<^verbatim>\<open>Graph\<close> object: its slots. A slot that was never assigned is \<open>None\<close>, and reading it
  raises \<^verbatim>\<open>AttributeError\<close>; \<^verbatim>\<open>operations\<close> is assigned by \<^verbatim>\<open>__init__\<close> and holds a
  reference to a list object. The \<^verbatim>\<open>fabric\<close> slot holds the one closure of
  \<^verbatim>\<open>graph_from_file\<close>, so only whether it is set is kept.
\<close>

record 'p Graph =
  source_type :: "string option"
  source :: "string option"
  parser :: "'p option"
  fabric :: "unit option"
  operations :: nat
  return_list :: "bool option"

text \<open>
  The builder methods mutate list objects that graphs may share, so objects live in a
  store: a reference is an index, a new object is added at the end, and a mutation replaces
  the object at its index. Python references never dangle; the functions below are
  applied to references of the store they are given.
\<close>

record ('s, 'p) store =
  graph_objs :: "'p Graph list"
  list_objs :: "'s list list"

text \<open>The stage list a graph refers to, and a graph whose references are in the store.\<close>

definition stages :: "('s, 'p) store \<Rightarrow> nat \<Rightarrow> 's list" where
  "stages h g = list_objs h ! operations (graph_objs h ! g)"

definition valid_graph :: "('s, 'p) store \<Rightarrow> nat \<Rightarrow> bool" where
  "valid_graph h g \<longleftrightarrow>
     g < length (graph_objs h) \<and> operations (graph_objs h ! g) < length (list_objs h)"

text \<open>
  \<^verbatim>\<open>graph_from_iter\<close> and \<^verbatim>\<open>graph_from_file\<close>: \<^verbatim>\<open>Graph([])\<close> makes a new empty list and a new
  graph, then the source slots are set.
\<close>

definition graph_from_iter :: "('s, 'p) store \<Rightarrow> string \<Rightarrow> ('s, 'p) store \<times> nat" where
  "graph_from_iter h name =
     (let ops = length (list_objs h);
          graph = length (graph_objs h)
      in (h\<lparr>list_objs := list_objs h @ [[]],
            graph_objs := graph_objs h @
              [\<lparr>source_type = Some ''generator'', source = Some name, parser = None,
                fabric = None, operations = ops, return_list = Some True\<rparr>]\<rparr>,
          graph))"

definition graph_from_file :: "('s, 'p) store \<Rightarrow> string \<Rightarrow> 'p \<Rightarrow> ('s, 'p) store \<times> nat" where
  "graph_from_file h filename p =
     (let ops = length (list_objs h);
          graph = length (graph_objs h)
      in (h\<lparr>list_objs := list_objs h @ [[]],
            graph_objs := graph_objs h @
              [\<lparr>source_type = Some ''file'', source = Some filename, parser = Some p,
                fabric = Some (), operations = ops, return_list = None\<rparr>]\<rparr>,
          graph))"

text \<open>
  \<^verbatim>\<open>Graph.__copy__\<close>: a new object whose slots are \<^verbatim>\<open>copy.copy\<close> of the slots that are set.
  \<^verbatim>\<open>copy.copy\<close> returns a string, a boolean and a function as they are, and for the list of
  operations it makes a new list object with the same items.
\<close>

definition Graph_copy :: "('s, 'p) store \<Rightarrow> nat \<Rightarrow> ('s, 'p) store \<times> nat" where
  "Graph_copy h self =
     (let object = length (graph_objs h);
          ops = length (list_objs h)
      in (h\<lparr>list_objs := list_objs h @ [stages h self],
            graph_objs := graph_objs h @ [(graph_objs h ! self)\<lparr>operations := ops\<rparr>]\<rparr>,
          object))"

text \<open>\<^verbatim>\<open>list.append\<close>, in place.\<close>

definition list_append :: "('s, 'p) store \<Rightarrow> nat \<Rightarrow> 's \<Rightarrow> ('s, 'p) store" where
  "list_append h l x = h\<lparr>list_objs := (list_objs h)[l := list_objs h ! l @ [x]]\<rparr>"

text \<open>
  \<^verbatim>\<open>Graph.map\<close>, \<^verbatim>\<open>Graph.reduce\<close>, \<^verbatim>\<open>Graph.sort\<close> and \<^verbatim>\<open>Graph.join\<close>:
  \<^verbatim>\<open>graph = copy.copy(self); graph.operations.append(...); return graph\<close>.
\<close>

definition Graph_map ::
  "(('m, 'r, 'j) stage, 'p) store \<Rightarrow> nat \<Rightarrow> 'm \<Rightarrow> (('m, 'r, 'j) stage, 'p) store \<times> nat" where
  "Graph_map h self mapper =
     (let (h1, graph) = Graph_copy h self
      in (list_append h1 (operations (graph_objs h1 ! graph)) (Map_stage mapper), graph))"

definition Graph_reduce ::
  "(('m, 'r, 'j) stage, 'p) store \<Rightarrow> nat \<Rightarrow> 'r \<Rightarrow> string list
     \<Rightarrow> (('m, 'r, 'j) stage, 'p) store \<times> nat" where
  "Graph_reduce h self reducer keys =
     (let (h1, graph) = Graph_copy h self
      in (list_append h1 (operations (graph_objs h1 ! graph)) (Reduce_stage reducer keys), graph))"

definition Graph_sort ::
  "(('m, 'r, 'j) stage, 'p) store \<Rightarrow> nat \<Rightarrow> string list
     \<Rightarrow> (('m, 'r, 'j) stage, 'p) store \<times> nat" where
  "Graph_sort h self keys =
     (let (h1, graph) = Graph_copy h self
      in (list_append h1 (operations (graph_objs h1 ! graph)) (ExternalSort_stage keys), graph))"

definition Graph_join ::
  "(('m, 'r, 'j) stage, 'p) store \<Rightarrow> nat \<Rightarrow> 'j \<Rightarrow> nat \<Rightarrow> string list
     \<Rightarrow> (('m, 'r, 'j) stage, 'p) store \<times> nat" where
  "Graph_join h self joiner join_graph keys =
     (let (h1, graph) = Graph_copy h self
      in (list_append h1 (operations (graph_objs h1 ! graph)) (join_op joiner join_graph keys),
          graph))"

text \<open>
  What \<^verbatim>\<open>Graph.run\<close> relies on: calling a stage on the current generator and the keyword
  arguments (which may raise, as \<^verbatim>\<open>join_op\<close> runs the other graph at once), the generator
  over the parsed lines of a file, and \<^verbatim>\<open>list(current_generator)\<close>, which pulls the records
  through the stages and may raise. The keyword arguments map a name to what calling its
  thunk gives.
\<close>

record ('s, 'p, 'gen, 'out) runtime =
  call_stage :: "'s \<Rightarrow> 'gen \<Rightarrow> (string \<rightharpoonup> error + 'gen) \<Rightarrow> error + 'gen"
  read_file :: "string \<Rightarrow> 'p \<Rightarrow> 'gen"
  materialize :: "'gen \<Rightarrow> error + 'out"

text \<open>
  The loop \<^verbatim>\<open>for operation in self.operations\<close> followed by \<^verbatim>\<open>list(current_generator)\<close>. Beside
  the result, the stages that were called are returned, in order.
\<close>

fun run_operations ::
  "('s, 'p, 'gen, 'out) runtime \<Rightarrow> (string \<rightharpoonup> error + 'gen) \<Rightarrow> 's list \<Rightarrow> 'gen
     \<Rightarrow> (error + 'out) \<times> 's list" where
  "run_operations rt kwargs [] current_generator = (materialize rt current_generator, [])"
| "run_operations rt kwargs (operation # rest) current_generator =
     (case call_stage rt operation current_generator kwargs of
        Inl e \<Rightarrow> (Inl e, [operation])
      | Inr new_generator \<Rightarrow>
          (let (res, called) = run_operations rt kwargs rest new_generator
           in (res, operation # called)))"

text \<open>
  The first statement of \<^verbatim>\<open>Graph.run\<close>:
  \<^verbatim>\<open>kwargs[self.source]() if self.source_type == "generator" else self.fabric()(self.source, self.parser)\<close>.
\<close>

definition open_source ::
  "('s, 'p, 'gen, 'out) runtime \<Rightarrow> 'p Graph \<Rightarrow> (string \<rightharpoonup> error + 'gen) \<Rightarrow> error + 'gen" where
  "open_source rt G kwargs =
     (case source_type G of
        None \<Rightarrow> Inl AttributeError
      | Some t \<Rightarrow>
          if t = ''generator'' then
            (case source G of
               None \<Rightarrow> Inl AttributeError
             | Some name \<Rightarrow>
                 (case kwargs name of
                    None \<Rightarrow> Inl KeyError
                  | Some thunk \<Rightarrow> thunk))
          else
            (case fabric G of
               None \<Rightarrow> Inl AttributeError
             | Some _ \<Rightarrow>
                 (case source G of
                    None \<Rightarrow> Inl AttributeError
                  | Some filename \<Rightarrow>
                      (case parser G of
                         None \<Rightarrow> Inl AttributeError
                       | Some p \<Rightarrow> Inr (read_file rt filename p)))))"

definition Graph_run ::
  "('s, 'p, 'gen, 'out) runtime \<Rightarrow> ('s, 'p) store \<Rightarrow> nat \<Rightarrow> (string \<rightharpoonup> error + 'gen)
     \<Rightarrow> (error + 'out) \<times> 's list" where
  "Graph_run rt h self kwargs =
     (case open_source rt (graph_objs h ! self) kwargs of
        Inl e \<Rightarrow> (Inl e, [])
      | Inr current_generator \<Rightarrow> run_operations rt kwargs (stages h self) current_generator)"

lemma Graph_copy_store:
  "Graph_copy h self = (h', g) \<Longrightarrow>
     g = length (graph_objs h)
   \<and> graph_objs h' = graph_objs h @ [(graph_objs h ! self)\<lparr>operations := length (list_objs h)\<rparr>]
   \<and> list_objs h' = list_objs h @ [stages h self]"
  by (auto simp: Graph_copy_def Let_def)

text \<open>The common shape of the four builder methods.\<close>

definition add_stage :: "('s, 'p) store \<Rightarrow> nat \<Rightarrow> 's \<Rightarrow> ('s, 'p) store \<times> nat" where
  "add_stage h self st =
     (let (h1, graph) = Graph_copy h self
      in (list_append h1 (operations (graph_objs h1 ! graph)) st, graph))"

lemma add_stage_store:
  assumes "add_stage h self st = (h', g)"
  shows "g = length (graph_objs h)"
    and "graph_objs h' = graph_objs h @ [(graph_objs h ! self)\<lparr>operations := length (list_objs h)\<rparr>]"
    and "list_objs h' = list_objs h @ [stages h self @ [st]]"
  using assms
  by (auto simp: add_stage_def Graph_copy_def list_append_def Let_def nth_append)

lemma builders_add_stage:
  "Graph_map h self mapper = add_stage h self (Map_stage mapper)"
  "Graph_reduce h self reducer keys = add_stage h self (Reduce_stage reducer keys)"
  "Graph_sort h self keys = add_stage h self (ExternalSort_stage keys)"
  "Graph_join h self joiner join_graph keys = add_stage h self (join_op joiner join_graph keys)"
  by (simp_all add: Graph_map_def Graph_reduce_def Graph_sort_def Graph_join_def add_stage_def)

lemma run_operations_called: "set (snd (run_operations rt kwargs ops gen)) \<subseteq> set ops"
proof (induction ops arbitrary: gen)
  case Nil
  then show ?case by simp
next
  case (Cons a ops)
  show ?case
  proof (cases "call_stage rt a gen kwargs")
    case (Inl e)
    then show ?thesis by simp
  next
    case (Inr new_generator)
    have "set (snd (run_operations rt kwargs ops new_generator)) \<subseteq> set ops"
      by (rule Cons.IH)
    with Inr show ?thesis by (auto simp: case_prod_beta)
  qed
qed

lemma Graph_run_called: "set (snd (Graph_run rt h g kwargs)) \<subseteq> set (stages h g)"
  using run_operations_called [of rt kwargs "stages h g"]
  by (auto simp: Graph_run_def split: sum.splits)

lemma add_stage_frame:
  assumes "add_stage h g1 st = (h', g2)" "valid_graph h g1"
  shows "g2 \<noteq> g1" "valid_graph h' g2"
    "graph_objs h' ! g1 = graph_objs h ! g1" "stages h' g1 = stages h g1"
    "stages h' g2 = stages h g1 @ [st]"
    "Graph_run rt h' g1 kwargs = Graph_run rt h g1 kwargs"
    "take (length (graph_objs h)) (graph_objs h') = graph_objs h"
    "take (length (list_objs h)) (list_objs h') = list_objs h"
proof -
  note s = add_stage_store [OF assms(1)]
  from assms(2) have v: "g1 < length (graph_objs h)"
    "operations (graph_objs h ! g1) < length (list_objs h)"
    by (simp_all add: valid_graph_def)
  show "g2 \<noteq> g1" using s(1) v(1) by simp
  show "valid_graph h' g2" by (simp add: valid_graph_def s)
  show g: "graph_objs h' ! g1 = graph_objs h ! g1" using v(1) by (simp add: s nth_append)
  show st: "stages h' g1 = stages h g1"
    unfolding stages_def g using v(2) by (simp add: s nth_append)
  show "stages h' g2 = stages h g1 @ [st]"
    by (simp add: stages_def [of h'] s)
  show "Graph_run rt h' g1 kwargs = Graph_run rt h g1 kwargs"
    unfolding Graph_run_def g st ..
  show "take (length (graph_objs h)) (graph_objs h') = graph_objs h" by (simp add: s)
  show "take (length (list_objs h)) (list_objs h') = list_objs h" by (simp add: s)
qed

text \<open>
  C3. Every graph-building operation (map, reduce, sort, join) returns a new graph and
  does not mutate the original. For a graph \<open>g1\<close> of the store and the store \<open>h'\<close> and graph
  \<open>g2\<close> that any of the four operations returns: \<open>g2\<close> is a new object; every object of the
  old store is unchanged, so the slots and the stage list of \<open>g1\<close> are what they were;
  running \<open>g1\<close> afterwards gives the same result and calls the same stages as before, all
  of them stages of the original list, so a mapper \<open>m\<close> added by \<open>g1.map(m)\<close> is not
  executed; and the stage list of the graph returned by \<open>g1.map(m)\<close> is the list of \<open>g1\<close>
  with the map stage appended.
\<close>

theorem builders_do_not_mutate:
  assumes "valid_graph h g1"
      and "(h', g2) \<in> {Graph_map h g1 m, Graph_reduce h g1 r keys, Graph_sort h g1 keys,
                        Graph_join h g1 j other keys}"
  shows "g2 \<noteq> g1 \<and> valid_graph h' g2
       \<and> take (length (graph_objs h)) (graph_objs h') = graph_objs h
       \<and> take (length (list_objs h)) (list_objs h') = list_objs h
       \<and> graph_objs h' ! g1 = graph_objs h ! g1
       \<and> stages h' g1 = stages h g1
       \<and> Graph_run rt h' g1 kwargs = Graph_run rt h g1 kwargs
       \<and> set (snd (Graph_run rt h' g1 kwargs)) \<subseteq> set (stages h g1)
       \<and> (Graph_map h g1 m = (h', g2) \<longrightarrow> stages h' g2 = stages h g1 @ [Map_stage m])"
proof -
  from assms(2) obtain st where st: "add_stage h g1 st = (h', g2)"
    by (auto simp: builders_add_stage)
  note f = add_stage_frame [OF st assms(1)]
  have "set (snd (Graph_run rt h' g1 kwargs)) \<subseteq> set (stages h g1)"
    using Graph_run_called [of rt h' g1 kwargs] by (simp add: f(4))
  moreover have "stages h' g2 = stages h g1 @ [Map_stage m]" if "Graph_map h g1 m = (h', g2)"
    using add_stage_frame(5) [OF that [unfolded builders_add_stage] assms(1)] .
  ultimately show ?thesis using f by simp
qed

text \<open>
  C9. When a graph bound to the input name \<open>name\<close> is run and the named inputs lack
  \<open>name\<close>, the run fails with \<^verbatim>\<open>KeyError\<close> at once: whatever the stages and the runtime are,
  no stage is called and nothing is materialised.
\<close>

theorem run_missing_input:
  assumes "source_type (graph_objs h ! g) = Some ''generator''"
      and "source (graph_objs h ! g) = Some name"
      and "kwargs name = None"
  shows "Graph_run rt h g kwargs = (Inl KeyError, [])"
  using assms by (simp add: Graph_run_def open_source_def)

text \<open>
  A store with the graph \<^verbatim>\<open>graph_from_iter('docs')\<close>, and a runtime whose stages pass their
  input on.
\<close>

definition example_store :: "((nat, nat, nat) stage, nat) store" where
  "example_store = fst (graph_from_iter \<lparr>graph_objs = [], list_objs = []\<rparr> ''docs'')"

definition example_runtime :: "((nat, nat, nat) stage, nat, nat list, nat list) runtime" where
  "example_runtime =
     \<lparr>call_stage = (\<lambda>st gen kwargs. Inr gen), read_file = (\<lambda>filename p. []),
      materialize = Inr\<rparr>"

theorem builders_do_not_mutate_witness:
  "valid_graph example_store 0
   \<and> Graph_map example_store 0 7
       = (\<lparr>graph_objs = graph_objs example_store @ [(graph_objs example_store ! 0)\<lparr>operations := 1\<rparr>],
           list_objs = [[], [Map_stage 7]]\<rparr>, 1)
   \<and> stages (fst (Graph_map example_store 0 7)) 0 = stages example_store 0
   \<and> stages (fst (Graph_map example_store 0 7)) 1 = stages example_store 0 @ [Map_stage 7]
   \<and> Graph_run example_runtime (fst (Graph_map example_store 0 7)) 0 [''docs'' \<mapsto> Inr [1, 2]]
       = Graph_run example_runtime example_store 0 [''docs'' \<mapsto> Inr [1, 2]]"
proof -
  have v: "valid_graph example_store 0"
    by (simp add: valid_graph_def example_store_def graph_from_iter_def)
  have m: "Graph_map example_store 0 7
       = (\<lparr>graph_objs = graph_objs example_store @ [(graph_objs example_store ! 0)\<lparr>operations := 1\<rparr>],
           list_objs = [[], [Map_stage 7]]\<rparr>, 1)"
    by (simp add: Graph_map_def Graph_copy_def list_append_def stages_def example_store_def
                  graph_from_iter_def)
  have eq: "Graph_map example_store 0 7 = (fst (Graph_map example_store 0 7), 1)"
    by (simp add: m)
  have mem: "(fst (Graph_map example_store 0 7), 1)
               \<in> {Graph_map example_store 0 7, Graph_reduce example_store 0 0 [],
                   Graph_sort example_store 0 [], Graph_join example_store 0 0 0 []}"
    using eq by simp
  note t = builders_do_not_mutate [OF v mem, of example_runtime "[''docs'' \<mapsto> Inr [1, 2]]"]
  from t eq have "stages (fst (Graph_map example_store 0 7)) 0 = stages example_store 0"
    "stages (fst (Graph_map example_store 0 7)) 1 = stages example_store 0 @ [Map_stage 7]"
    "Graph_run example_runtime (fst (Graph_map example_store 0 7)) 0 [''docs'' \<mapsto> Inr [1, 2]]
       = Graph_run example_runtime example_store 0 [''docs'' \<mapsto> Inr [1, 2]]"
    by blast+
  with v m show ?thesis by (intro conjI)
qed

theorem run_missing_input_witness:
  "source_type (graph_objs (fst (Graph_map example_store 0 7)) ! 1) = Some ''generator''
   \<and> source (graph_objs (fst (Graph_map example_store 0 7)) ! 1) = Some ''docs''
   \<and> Graph_run example_runtime (fst (Graph_map example_store 0 7)) 1 [''texts'' \<mapsto> Inr [1, 2]]
       = (Inl KeyError, [])"
proof -
  have a: "source_type (graph_objs (fst (Graph_map example_store 0 7)) ! 1) = Some ''generator''"
    and b: "source (graph_objs (fst (Graph_map example_store 0 7)) ! 1) = Some ''docs''"
    by (simp_all add: Graph_map_def Graph_copy_def list_append_def stages_def example_store_def
                      graph_from_iter_def)
  have c: "[''texts'' \<mapsto> Inr [1, 2::nat]] ''docs'' = None"
    by simp
  from run_missing_input [where kwargs = "[''texts'' \<mapsto> Inr [1, 2]]" and rt = example_runtime,
                          OF a b c] a b
  show ?thesis by (intro conjI)
qed

section \<open>The sort stage\<close>

text \<open>
  Modelled from the spec: the module \<^verbatim>\<open>external_sort\<close> with the class \<^verbatim>\<open>ExternalSort\<close>, which
  \<^verbatim>\<open>Graph.sort\<close> appends as a stage, is not among the sources. Section 4.3 of the
  specification describes it: the records are accumulated into a buffer of up to a
  configurable run size; a full buffer is sorted by the key tuple and becomes a run; at the
  end of the input all runs are merged by a k-way merge that always emits the record with
  the least key among the heads of the runs; the ordering is stable; a record that lacks
  a key field fails loudly.

  The input is cut into runs of the run size (a run size of zero is read as one).
\<close>

function runs_of :: "nat \<Rightarrow> 'a list \<Rightarrow> 'a list list" where
  "runs_of run_size rows =
     (if rows = [] then []
      else take (max 1 run_size) rows # runs_of run_size (drop (max 1 run_size) rows))"
  by pat_completeness auto
termination
  by (relation "measure (\<lambda>(run_size, rows). length rows)") auto

declare runs_of.simps [simp del]

text \<open>
  The index of the run the merge takes the next record from: among the non-empty runs, the
  first run whose head has the least key. Taking the first one among equal keys is what
  keeps the merge stable, since earlier runs hold earlier records.
\<close>

fun min_head :: "('a \<Rightarrow> 'k::linorder) \<Rightarrow> 'a list list \<Rightarrow> nat" where
  "min_head f [] = 0"
| "min_head f [r] = 0"
| "min_head f (r # r' # rs) =
     (let j = min_head f (r' # rs)
      in if f (hd r) \<le> f (hd ((r' # rs) ! j)) then 0 else Suc j)"

lemma min_head_less: "rs \<noteq> [] \<Longrightarrow> min_head f rs < length rs"
  by (induction f rs rule: min_head.induct) (auto simp: Let_def)

lemma min_head_le:
  "j < length rs \<Longrightarrow> f (hd (rs ! min_head f rs)) \<le> f (hd (rs ! j))"
proof (induction f rs arbitrary: j rule: min_head.induct)
  case (3 f r r' rs)
  let ?m = "min_head f (r' # rs)"
  show ?case
  proof (cases j)
    case 0
    then show ?thesis by (auto simp: Let_def)
  next
    case (Suc j')
    with 3 have "f (hd ((r' # rs) ! ?m)) \<le> f (hd ((r' # rs) ! j'))" by simp
    with Suc show ?thesis by (auto simp: Let_def)
  qed
qed simp_all

lemma min_head_first:
  "j < min_head f rs \<Longrightarrow> f (hd (rs ! min_head f rs)) < f (hd (rs ! j))"
proof (induction f rs arbitrary: j rule: min_head.induct)
  case (3 f r r' rs)
  let ?m = "min_head f (r' # rs)"
  from "3.prems" have ne: "\<not> f (hd r) \<le> f (hd ((r' # rs) ! ?m))"
    by (auto simp: Let_def split: if_splits)
  then have mh: "min_head f (r # r' # rs) = Suc ?m" by (simp add: Let_def)
  show ?case
  proof (cases j)
    case 0
    with ne mh show ?thesis by simp
  next
    case (Suc j')
    with "3.prems" mh have "j' < ?m" by simp
    then have "f (hd ((r' # rs) ! ?m)) < f (hd ((r' # rs) ! j'))" by (rule "3.IH")
    with Suc mh show ?thesis by simp
  qed
qed simp_all

lemma concat_nonempty: "concat (filter (\<lambda>r. r \<noteq> []) runs) = concat runs"
  by (induction runs) auto

lemma length_concat_update_tl:
  assumes "i < length rs" "rs ! i \<noteq> []"
  shows "length (concat (rs[i := tl (rs ! i)])) < length (concat rs)"
proof -
  have "concat rs = concat (take i rs) @ rs ! i @ concat (drop (Suc i) rs)"
    using assms(1) by (metis concat.simps(2) concat_append id_take_nth_drop)
  moreover have "concat (rs[i := tl (rs ! i)])
      = concat (take i rs) @ tl (rs ! i) @ concat (drop (Suc i) rs)"
    using assms(1) by (simp add: upd_conv_take_nth_drop)
  ultimately show ?thesis using assms(2) by (cases "rs ! i") auto
qed

text \<open>The k-way merge of the runs.\<close>

function kway_merge :: "('a \<Rightarrow> 'k::linorder) \<Rightarrow> 'a list list \<Rightarrow> 'a list" where
  "kway_merge f runs =
     (let rs = filter (\<lambda>r. r \<noteq> []) runs
      in if rs = [] then []
         else (let i = min_head f rs
               in hd (rs ! i) # kway_merge f (rs[i := tl (rs ! i)])))"
  by pat_completeness auto
termination
proof (relation "measure (\<lambda>(f, runs). length (concat runs))", goal_cases)
  case 1
  show ?case by simp
next
  case (2 f runs rs i)
  then have i: "i < length rs" by (simp add: min_head_less)
  then have "rs ! i \<in> set rs" by simp
  with 2 have ne: "rs ! i \<noteq> []" by auto
  have "length (concat rs) = length (concat runs)"
    using 2 by (simp add: concat_nonempty)
  with length_concat_update_tl [OF i ne] show ?case by simp
qed

declare kway_merge.simps [simp del]

text \<open>
  The sort stage: each run is sorted by the key tuple with a stable in-memory sort, and the
  runs are merged. A record without one of the key fields makes the stage fail.
\<close>

definition ExternalSort ::
  "nat \<Rightarrow> string list \<Rightarrow> ('v::linorder) TRow list \<Rightarrow> error + 'v TRow list" where
  "ExternalSort run_size keys rows =
     (if list_all (has_keys keys) rows
      then Inr (kway_merge (key_of keys)
                  (map (sort_key (key_of keys)) (runs_of run_size rows)))
      else Inl KeyError)"


lemma runs_of_Nil: "runs_of run_size [] = []"
  by (simp add: runs_of.simps [of run_size "[]"])

lemma concat_runs_of: "concat (runs_of run_size rows) = rows"
proof (induction run_size rows rule: runs_of.induct)
  case (1 run_size rows)
  show ?case
  proof (cases "rows = []")
    case True
    then show ?thesis by (simp add: runs_of_Nil)
  next
    case False
    with 1 show ?thesis by (simp add: runs_of.simps [of run_size rows])
  qed
qed

lemma kway_merge_empty:
  "filter (\<lambda>r. r \<noteq> []) runs = [] \<Longrightarrow> kway_merge f runs = []"
  by (simp add: kway_merge.simps [of f runs])

lemma kway_merge_step:
  assumes "filter (\<lambda>r. r \<noteq> []) runs = rs" "rs \<noteq> []"
  shows "kway_merge f runs
           = hd (rs ! min_head f rs) # kway_merge f (rs[min_head f rs := tl (rs ! min_head f rs)])"
  using assms by (simp add: kway_merge.simps [of f runs] Let_def)

text \<open>The run the next record is taken from, split off the other runs.\<close>

lemma runs_split:
  assumes "filter (\<lambda>r. r \<noteq> []) runs = rs" "rs \<noteq> []" "i = min_head f rs"
  obtains x t where "rs ! i = x # t" "i < length rs"
    "concat runs = concat (take i rs) @ x # t @ concat (drop (Suc i) rs)"
    "concat (rs[i := tl (rs ! i)]) = concat (take i rs) @ t @ concat (drop (Suc i) rs)"
    "hd (rs ! i) = x" "tl (rs ! i) = t"
proof -
  from assms have i: "i < length rs" by (simp add: min_head_less)
  then have "rs ! i \<in> set rs" by simp
  with assms(1) have "rs ! i \<noteq> []" by auto
  then obtain x t where xt: "rs ! i = x # t" by (cases "rs ! i") auto
  have "concat rs = concat (take i rs) @ rs ! i @ concat (drop (Suc i) rs)"
    using i by (metis concat.simps(2) concat_append id_take_nth_drop)
  then have a: "concat runs = concat (take i rs) @ x # t @ concat (drop (Suc i) rs)"
    using assms(1) concat_nonempty [of runs] by (simp add: xt)
  have b: "concat (rs[i := tl (rs ! i)]) = concat (take i rs) @ t @ concat (drop (Suc i) rs)"
    using i by (simp add: upd_conv_take_nth_drop xt)
  from xt i a b show ?thesis by (intro that) simp_all
qed

lemma concat_no_runs:
  assumes "filter (\<lambda>r. r \<noteq> []) runs = []"
  shows "concat runs = []"
proof -
  have "concat runs = concat (filter (\<lambda>r. r \<noteq> []) runs)" by (rule concat_nonempty [symmetric])
  also have "\<dots> = []" unfolding assms by simp
  finally show ?thesis .
qed

lemma mset_kway_merge: "mset (kway_merge f runs) = mset (concat runs)"
proof (induction f runs rule: kway_merge.induct)
  case (1 f runs)
  let ?rs = "filter (\<lambda>r. r \<noteq> []) runs"
  show ?case
  proof (cases "?rs = []")
    case True
    show ?thesis unfolding kway_merge_empty [OF True] concat_no_runs [OF True] by simp
  next
    case False
    let ?i = "min_head f ?rs"
    obtain x t where s: "concat runs = concat (take ?i ?rs) @ x # t @ concat (drop (Suc ?i) ?rs)"
      "concat (?rs[?i := tl (?rs ! ?i)]) = concat (take ?i ?rs) @ t @ concat (drop (Suc ?i) ?rs)"
      "hd (?rs ! ?i) = x"
      by (rule runs_split [OF refl False refl, of f])
    have "mset (kway_merge f (?rs[?i := tl (?rs ! ?i)])) = mset (concat (?rs[?i := tl (?rs ! ?i)]))"
      by (rule "1.IH" [OF refl False refl])
    then show ?thesis
      unfolding kway_merge_step [OF refl False] s by simp
  qed
qed

definition runs_sorted :: "('a \<Rightarrow> 'k::linorder) \<Rightarrow> 'a list list \<Rightarrow> bool" where
  "runs_sorted f runs = (\<forall>r\<in>set runs. sorted (map f r))"

lemma runs_sorted_step:
  assumes "runs_sorted f runs" "i < length (filter (\<lambda>r. r \<noteq> []) runs)"
  shows "runs_sorted f ((filter (\<lambda>r. r \<noteq> []) runs)[i := tl (filter (\<lambda>r. r \<noteq> []) runs ! i)])"
proof -
  let ?rs = "filter (\<lambda>r. r \<noteq> []) runs"
  have rs: "runs_sorted f ?rs" using assms(1) by (simp add: runs_sorted_def)
  from nth_mem [OF assms(2)] rs have "sorted (map f (?rs ! i))"
    unfolding runs_sorted_def by blast
  then have "sorted (map f (tl (?rs ! i)))" by (cases "?rs ! i") simp_all
  with rs show ?thesis
    using set_update_subset_insert [of ?rs i "tl (?rs ! i)"]
    by (auto simp: runs_sorted_def)
qed

lemma run_elem_ge_head:
  assumes "sorted (map f r)" "y \<in> set r"
  shows "f (hd r) \<le> f y"
  using assms by (cases r) auto

lemma min_head_lower_bound:
  assumes "runs_sorted f runs" "filter (\<lambda>r. r \<noteq> []) runs = rs" "rs \<noteq> []"
      and "y \<in> set (concat runs)"
  shows "f (hd (rs ! min_head f rs)) \<le> f y"
proof -
  from assms(2,4) have "y \<in> set (concat rs)" using concat_nonempty [of runs] by simp
  then obtain r where r: "r \<in> set rs" "y \<in> set r" by auto
  then obtain j where j: "j < length rs" "rs ! j = r" by (auto simp: in_set_conv_nth)
  from r(1) assms(1,2) have "sorted (map f r)" by (auto simp: runs_sorted_def)
  then have "f (hd r) \<le> f y" using r(2) by (rule run_elem_ge_head)
  moreover have "f (hd (rs ! min_head f rs)) \<le> f (hd r)"
    using min_head_le [OF j(1), of f] j(2) by simp
  ultimately show ?thesis by simp
qed

lemma sorted_kway_merge:
  "runs_sorted f runs \<Longrightarrow> sorted (map f (kway_merge f runs))"
proof (induction f runs rule: kway_merge.induct)
  case (1 f runs)
  let ?rs = "filter (\<lambda>r. r \<noteq> []) runs"
  show ?case
  proof (cases "?rs = []")
    case True
    then show ?thesis by (simp add: kway_merge_empty)
  next
    case False
    let ?i = "min_head f ?rs"
    let ?rest = "?rs[?i := tl (?rs ! ?i)]"
    have i: "?i < length ?rs" using False by (rule min_head_less)
    have IH: "sorted (map f (kway_merge f ?rest))"
      by (rule "1.IH" [OF refl False refl runs_sorted_step [OF "1.prems" i]])
    have "f (hd (?rs ! ?i)) \<le> f y" if "y \<in> set (kway_merge f ?rest)" for y
    proof -
      have "set (kway_merge f ?rest) = set (concat ?rest)"
        by (rule mset_eq_setD [OF mset_kway_merge])
      with that have y: "y \<in> set (concat ?rest)" by simp
      obtain x t where s: "concat runs = concat (take ?i ?rs) @ x # t @ concat (drop (Suc ?i) ?rs)"
        "concat ?rest = concat (take ?i ?rs) @ t @ concat (drop (Suc ?i) ?rs)"
        by (rule runs_split [OF refl False refl, of f])
      from y have "y \<in> set (concat runs)" unfolding s by auto
      then show ?thesis by (rule min_head_lower_bound [OF "1.prems" refl False])
    qed
    with IH show ?thesis
      unfolding kway_merge_step [OF refl False] by simp
  qed
qed

lemma stable_kway_merge:
  "runs_sorted f runs \<Longrightarrow>
   filter (\<lambda>y. f y = k) (kway_merge f runs) = filter (\<lambda>y. f y = k) (concat runs)"
proof (induction f runs rule: kway_merge.induct)
  case (1 f runs)
  let ?rs = "filter (\<lambda>r. r \<noteq> []) runs"
  show ?case
  proof (cases "?rs = []")
    case True
    show ?thesis unfolding kway_merge_empty [OF True] concat_no_runs [OF True] by simp
  next
    case False
    let ?i = "min_head f ?rs"
    let ?rest = "?rs[?i := tl (?rs ! ?i)]"
    have i: "?i < length ?rs" using False by (rule min_head_less)
    have rs: "runs_sorted f ?rs" using "1.prems" by (simp add: runs_sorted_def)
    have IH: "filter (\<lambda>y. f y = k) (kway_merge f ?rest) = filter (\<lambda>y. f y = k) (concat ?rest)"
      by (rule "1.IH" [OF refl False refl runs_sorted_step [OF "1.prems" i]])
    obtain x t where s: "concat runs = concat (take ?i ?rs) @ x # t @ concat (drop (Suc ?i) ?rs)"
      "concat ?rest = concat (take ?i ?rs) @ t @ concat (drop (Suc ?i) ?rs)"
      "hd (?rs ! ?i) = x"
      by (rule runs_split [OF refl False refl, of f])
    have before: "f x < f y" if "y \<in> set (concat (take ?i ?rs))" for y
    proof -
      from that obtain r where r: "r \<in> set (take ?i ?rs)" "y \<in> set r" by auto
      then obtain j where j: "j < ?i" "?rs ! j = r"
        by (auto simp: in_set_conv_nth)
      with i have "r \<in> set ?rs" by (metis less_trans nth_mem)
      with rs have "sorted (map f r)" by (simp add: runs_sorted_def)
      then have "f (hd r) \<le> f y" using r(2) by (rule run_elem_ge_head)
      moreover have "f x < f (hd r)" using min_head_first [OF j(1)] j(2) s(3) by simp
      ultimately show ?thesis by simp
    qed
    show ?thesis
    proof (cases "f x = k")
      case True
      have "f y \<noteq> k" if "y \<in> set (concat (take ?i ?rs))" for y
        using before [OF that] True by simp
      then have "filter (\<lambda>y. f y = k) (concat (take ?i ?rs)) = []"
        unfolding filter_empty_conv by blast
      then show ?thesis
        unfolding kway_merge_step [OF refl False] s(3) using True IH by (simp add: s(1,2))
    next
      case False
      then show ?thesis
        unfolding kway_merge_step [OF refl \<open>?rs \<noteq> []\<close>] s(3) using IH by (simp add: s(1,2))
    qed
  qed
qed

lemma runs_sorted_sort_key: "runs_sorted f (map (sort_key f) runs)"
  by (simp add: runs_sorted_def)

lemma filter_concat_sorted_runs:
  "filter (\<lambda>y. f y = k) (concat (map (sort_key f) runs)) = filter (\<lambda>y. f y = k) (concat runs)"
  by (induction runs) (simp_all add: sort_key_stable)

lemma mset_concat_sorted_runs: "mset (concat (map (sort_key f) runs)) = mset (concat runs)"
  by (induction runs) simp_all

text \<open>
  C5. For every finite input stream and key tuple, whatever the run size, the output of
  the sort stage is a permutation of its input records, non-decreasing in the
  lexicographic order of the key tuple, and records whose keys tie keep their relative
  input order; the stage produces this output whenever every record carries the key
  fields.
\<close>

theorem ExternalSort_sorted_stable:
  "(ExternalSort run_size keys rows = Inr out \<longrightarrow>
      mset out = mset rows
    \<and> sorted (map (key_of keys) out)
    \<and> (\<forall>k. filter (\<lambda>r. key_of keys r = k) out = filter (\<lambda>r. key_of keys r = k) rows))
   \<and> (list_all (has_keys keys) rows \<longrightarrow> (\<exists>out. ExternalSort run_size keys rows = Inr out))"
proof -
  let ?f = "key_of keys"
  let ?runs = "map (sort_key ?f) (runs_of run_size rows)"
  have "mset (kway_merge ?f ?runs) = mset rows"
    by (simp add: mset_kway_merge mset_concat_sorted_runs concat_runs_of)
  moreover have "sorted (map ?f (kway_merge ?f ?runs))"
    by (rule sorted_kway_merge [OF runs_sorted_sort_key])
  moreover have "filter (\<lambda>r. ?f r = k) (kway_merge ?f ?runs) = filter (\<lambda>r. ?f r = k) rows" for k
    by (simp add: stable_kway_merge [OF runs_sorted_sort_key] filter_concat_sorted_runs
                  concat_runs_of)
  ultimately show ?thesis
    by (auto simp: ExternalSort_def)
qed

text \<open>An input with ties and the order the sort stage gives it.\<close>

definition example_unsorted :: "int TRow list" where
  "example_unsorted =
     [[(''doc'', 1), (''text'', 5)], [(''doc'', 2), (''text'', 3)], [(''doc'', 3), (''text'', 5)],
      [(''doc'', 4), (''text'', 1)], [(''doc'', 5), (''text'', 3)]]"

definition example_sorted :: "int TRow list" where
  "example_sorted =
     [[(''doc'', 4), (''text'', 1)], [(''doc'', 2), (''text'', 3)], [(''doc'', 5), (''text'', 3)],
      [(''doc'', 1), (''text'', 5)], [(''doc'', 3), (''text'', 5)]]"

theorem ExternalSort_sorted_stable_witness:
  "list_all (has_keys [''text'']) example_unsorted
   \<and> ExternalSort 2 [''text''] example_unsorted = Inr example_sorted
   \<and> mset example_sorted = mset example_unsorted
   \<and> sorted (map (key_of [''text'']) example_sorted)
   \<and> filter (\<lambda>r. key_of [''text''] r = [5]) example_sorted
       = filter (\<lambda>r. key_of [''text''] r = [5]) example_unsorted"
proof -
  have keys: "list_all (has_keys [''text'']) example_unsorted"
    by code_simp
  have run: "ExternalSort 2 [''text''] example_unsorted = Inr example_sorted"
    by code_simp
  note t = ExternalSort_sorted_stable [of 2 "[''text'']" example_unsorted example_sorted,
              THEN conjunct1, THEN mp, OF run]
  from t have "mset example_sorted = mset example_unsorted"
    "sorted (map (key_of [''text'']) example_sorted)"
    "filter (\<lambda>r. key_of [''text''] r = [5]) example_sorted
       = filter (\<lambda>r. key_of [''text''] r = [5]) example_unsorted"
    by blast+
  with keys run show ?thesis by (intro conjI)
qed

section \<open>Mappers that write to their input record\<close>

text \<open>
  The values the two mappers tell apart: strings, which have \<^verbatim>\<open>translate\<close> and \<^verbatim>\<open>lower\<close>, and
  integers, booleans and lists, on which these attributes are missing.
\<close>

datatype val = VInt int | VBool bool | VStr string | VList "val list"

text \<open>
  \<^verbatim>\<open>s.translate(str.maketrans('', '', string.punctuation))\<close> deletes the characters of
  \<^verbatim>\<open>string.punctuation\<close>, the ASCII characters 33 to 47, 58 to 64, 91 to 96 and 123 to 126.
  A character of the model is a code point below 256. On these \<^verbatim>\<open>s.lower()\<close> works character
  by character: the upper-case letters are the code points 65 to 90 (A to Z), 192 to 214
  and 216 to 222 (the accented capitals of Latin-1), each 32 below its lower-case letter;
  every other code point below 256 is left as it is. Text with code points from 256 on
  is outside the model.
\<close>

definition is_punctuation :: "char \<Rightarrow> bool" where
  "is_punctuation c =
     (let n = (of_char c :: nat)
      in (33 \<le> n \<and> n \<le> 47) \<or> (58 \<le> n \<and> n \<le> 64) \<or> (91 \<le> n \<and> n \<le> 96)
         \<or> (123 \<le> n \<and> n \<le> 126))"

definition delete_punctuation :: "string \<Rightarrow> string" where
  "delete_punctuation s = filter (\<lambda>c. \<not> is_punctuation c) s"

definition lower_char :: "char \<Rightarrow> char" where
  "lower_char c =
     (let n = (of_char c :: nat)
      in if (65 \<le> n \<and> n \<le> 90) \<or> (192 \<le> n \<and> n \<le> 214) \<or> (216 \<le> n \<and> n \<le> 222)
         then char_of (n + 32) else c)"

definition lower :: "string \<Rightarrow> string" where
  "lower s = map lower_char s"

text \<open>\<^verbatim>\<open>row[key] = v\<close>, on the dict the reference points to.\<close>

definition setitem :: "'v TRow \<Rightarrow> string \<Rightarrow> 'v \<Rightarrow> 'v TRow" where
  "setitem row key v = AList.update key v row"

text \<open>
  \<^verbatim>\<open>FilterPunctuation.__call__\<close> and \<^verbatim>\<open>LowerCase.__call__\<close>:
  \<^verbatim>\<open>row[self.column] = row[self.column].translate(...); yield row\<close>. The row is a reference
  to a dict that the caller holds too, so the rows live in a store; the mapper returns the
  references it yields, or the exception it raises, and the store it leaves behind.
\<close>

definition FilterPunctuation ::
  "string \<Rightarrow> val TRow list \<Rightarrow> nat \<Rightarrow> (error + nat list) \<times> val TRow list" where
  "FilterPunctuation column h row =
     (case getitem (h ! row) column of
        Inl e \<Rightarrow> (Inl e, h)
      | Inr v \<Rightarrow>
          (case v of
             VStr s \<Rightarrow> (Inr [row], h[row := setitem (h ! row) column (VStr (delete_punctuation s))])
           | _ \<Rightarrow> (Inl AttributeError, h)))"

definition LowerCase ::
  "string \<Rightarrow> val TRow list \<Rightarrow> nat \<Rightarrow> (error + nat list) \<times> val TRow list" where
  "LowerCase column h row =
     (case getitem (h ! row) column of
        Inl e \<Rightarrow> (Inl e, h)
      | Inr v \<Rightarrow>
          (case v of
             VStr s \<Rightarrow> (Inr [row], h[row := setitem (h ! row) column (VStr (lower s))])
           | _ \<Rightarrow> (Inl AttributeError, h)))"

text \<open>The first record of the word count example.\<close>

definition example_docs :: "val TRow list" where
  "example_docs = [[(''doc_id'', VInt 1), (''text'', VStr ''Hello, World'')]]"

text \<open>
  C4. The claim is that applying \<^verbatim>\<open>FilterPunctuation\<close> or \<^verbatim>\<open>LowerCase\<close> leaves the input
  record unchanged. The code writes the new value into the input record and yields that
  same record: on the record \<^verbatim>\<open>{doc_id: 1, text: 'Hello, World'}\<close> each of the two mappers
  yields the reference it was given and leaves a changed record behind it.
\<close>

theorem mappers_mutate_input:
  "FilterPunctuation ''text'' example_docs 0
     = (Inr [0], [[(''doc_id'', VInt 1), (''text'', VStr ''Hello World'')]])
   \<and> snd (FilterPunctuation ''text'' example_docs 0) ! 0 \<noteq> example_docs ! 0
   \<and> LowerCase ''text'' example_docs 0
     = (Inr [0], [[(''doc_id'', VInt 1), (''text'', VStr ''hello, world'')]])
   \<and> snd (LowerCase ''text'' example_docs 0) ! 0 \<noteq> example_docs ! 0"
proof -
  have f: "FilterPunctuation ''text'' example_docs 0
     = (Inr [0], [[(''doc_id'', VInt 1), (''text'', VStr ''Hello World'')]])"
    by code_simp
  have l: "LowerCase ''text'' example_docs 0
     = (Inr [0], [[(''doc_id'', VInt 1), (''text'', VStr ''hello, world'')]])"
    by code_simp
  show ?thesis unfolding f l by (simp add: example_docs_def)
qed

end
